theory Spec2Isabelle
  imports Complex_Main "HOL-Library.Word"
begin

unbundle bit_operations_syntax

section \<open>The loss classifier of main.go\<close>

subsection \<open>Hit rates: float64 values and their comparisons\<close>

text \<open>
  \<^verbatim>\<open>normalizeRcvd\<close> fills the hit-rate vector with
  \<^verbatim>\<open>float64(rcvd[i]) / float64(sent[i])\<close>. A float64 is a finite number, one of the
  two infinities, or NaN (the quotient 0/0, which Go computes at run time without a
  panic). Every finite float64 is a real number, and the comparisons of Go on finite
  values are the comparisons of the reals, so the finite values are embedded by \<open>Fin\<close>.
  A comparison with NaN on either side is false, whichever operator is used.
\<close>

datatype float64 = NaN | NInf | Fin real | PInf

fun f64_lt :: "float64 \<Rightarrow> float64 \<Rightarrow> bool" where
  "f64_lt NaN y = False"
| "f64_lt x NaN = False"
| "f64_lt NInf NInf = False"
| "f64_lt NInf y = True"
| "f64_lt (Fin a) NInf = False"
| "f64_lt (Fin a) (Fin b) = (a < b)"
| "f64_lt (Fin a) PInf = True"
| "f64_lt PInf y = False"

fun f64_ge :: "float64 \<Rightarrow> float64 \<Rightarrow> bool" where
  "f64_ge NaN y = False"
| "f64_ge x NaN = False"
| "f64_ge NInf NInf = True"
| "f64_ge NInf y = False"
| "f64_ge (Fin a) NInf = True"
| "f64_ge (Fin a) (Fin b) = (a \<ge> b)"
| "f64_ge (Fin a) PInf = False"
| "f64_ge PInf y = True"

subsection \<open>isLossy\<close>

text \<open>
  The inner loop of \<^verbatim>\<open>isLossy\<close> (lines 468-473), entered with \<^verbatim>\<open>found = true\<close>:
  it returns the value of \<^verbatim>\<open>found\<close> when the loop is left, \<open>False\<close> through the
  \<^verbatim>\<open>break\<close> at the first \<open>j\<close> with \<^verbatim>\<open>hitRates[j] >= hitRates[i]\<close>.
\<close>

function isLossy_inner :: "float64 list \<Rightarrow> nat \<Rightarrow> nat \<Rightarrow> bool" where
  "isLossy_inner hitRates i j =
     (if j < length hitRates then
        (if f64_ge (hitRates ! j) (hitRates ! i) then False
         else isLossy_inner hitRates i (j + 1))
      else True)"
  by pat_completeness auto
termination
  by (relation "measure (\<lambda>(hitRates, i, j). length hitRates - j)") auto

text \<open>
  The outer loop (lines 465-474) on the loop state \<open>(i, found, segLen)\<close>. The guard
  \<^verbatim>\<open>i < len(hitRates)-1\<close> is on Go's signed \<^verbatim>\<open>int\<close>, so it is false for the empty
  vector; on naturals it is written \<open>i + 1 < length hitRates\<close>.
\<close>

function isLossy_outer :: "float64 list \<Rightarrow> nat \<Rightarrow> bool \<Rightarrow> nat \<Rightarrow> bool \<times> nat" where
  "isLossy_outer hitRates i found segLen =
     (if i + 1 < length hitRates \<and> \<not> found then
        isLossy_outer hitRates (i + 1) (isLossy_inner hitRates i (i + 1)) (length hitRates - i)
      else (found, segLen))"
  by pat_completeness auto
termination
  by (relation "measure (\<lambda>(hitRates, i, found, segLen). length hitRates - i)") auto

definition isLossy :: "float64 list \<Rightarrow> bool" where
  "isLossy hitRates =
     (case isLossy_outer hitRates 0 False 0 of
        (found, segLen) \<Rightarrow> if segLen > 2 then found else False)"

text \<open>The predicate of the specification, on the same comparison of float64 values.\<close>

definition dominates :: "float64 list \<Rightarrow> nat \<Rightarrow> bool" where
  "dominates h i = (\<forall>j. i < j \<and> j < length h \<longrightarrow> f64_lt (h ! j) (h ! i))"

definition spec_lossy :: "float64 list \<Rightarrow> bool" where
  "spec_lossy h = (\<exists>i. 2 < length h - i \<and> i < length h \<and> dominates h i)"

text \<open>What the code tests instead: no later sample compares \<open>>=\<close> to sample \<open>i\<close>.\<close>

definition none_ge :: "float64 list \<Rightarrow> nat \<Rightarrow> bool" where
  "none_ge h i = (\<forall>j. i < j \<and> j < length h \<longrightarrow> \<not> f64_ge (h ! j) (h ! i))"

section \<open>Probes, stamps and receivers\<close>

subsection \<open>Messages\<close>

text \<open>
  Go's \<^verbatim>\<open>int\<close> is the 64-bit signed integer of the platforms the tool runs on. Source
  ports and TTLs are converted from 16-bit and 8-bit quantities, far from its bounds,
  so they are integers here. \<^verbatim>\<open>net.IP\<close> is a byte slice. A variable of the source
  whose name is also a field name carries a prime here (\<open>ttl'\<close>).
\<close>

type_synonym IP = "8 word list"

record Probe =
  srcPort :: int
  ttl :: int

record ICMPResponse = Probe +
  fromAddr :: IP
  fromName :: string
  rtt :: "32 word"

record TCPResponse = Probe +
  rtt :: "32 word"

text \<open>The values that travel on the \<^verbatim>\<open>chan interface{}\<close> channels of the pipeline.\<close>

datatype val = ProbeV Probe | ICMP ICMPResponse | TCP TCPResponse

datatype error = IndexOutOfRange | LenOutOfRange | CloseOfNilChannel | CloseOfClosedChannel

text \<open>
  The fields of the header that \<^verbatim>\<open>parseTCPHeader\<close> returns and main.go reads. The
  parser, the type and the flag masks \<^verbatim>\<open>RST\<close> and \<^verbatim>\<open>ACK\<close> are declared outside
  main.go: the parsed header is an input of the receivers below and the two masks are
  parameters.
\<close>

record TCPHeader =
  Source :: "16 word"
  Destination :: "16 word"
  SeqNum :: "32 word"
  AckNum :: "32 word"
  Flags :: "8 word"

subsection \<open>The stamp\<close>

text \<open>
  \<^verbatim>\<open>uint32(time.Now().UnixNano()/(1000*1000)) & 0x00ffffff\<close>, as a function of the
  milliseconds since the epoch; the conversion to \<^verbatim>\<open>uint32\<close> keeps the low 32 bits.
\<close>

definition now24 :: "int \<Rightarrow> 32 word" where
  "now24 nowMs = (word_of_int nowMs) AND 0x00ffffff"

text \<open>Lines 405-406 of \<^verbatim>\<open>Sender\<close>.\<close>

definition Sender_seqNum :: "int \<Rightarrow> int \<Rightarrow> 32 word" where
  "Sender_seqNum ttl' nowMs =
     (let now = now24 nowMs
      in push_bit 24 ((word_of_int ttl' :: 32 word) AND 0xff) OR (now AND 0x00ffffff))"

text \<open>
  Lines 168, 169 and 176 of \<^verbatim>\<open>TCPReceiver\<close>: the TTL and the time stamp read from
  the acknowledgement number of the response.
\<close>

definition TCPReceiver_stamp :: "32 word \<Rightarrow> int \<times> 32 word" where
  "TCPReceiver_stamp ack =
     (let ackNum = ack - 1;
          ttl' = uint (drop_bit 24 ackNum);
          ts = ackNum AND 0x00ffffff
      in (ttl', ts))"

subsection \<open>TCPReceiver\<close>

text \<open>
  The body of the receive loop (lines 131-185) for one packet that
  \<^verbatim>\<open>Recvfrom\<close> delivered without error: \<open>n\<close> is the number of bytes read,
  \<open>tcpHdr\<close> the header parsed from them, \<open>fromAddrStr\<close> the printed sender address and
  \<open>nowMs\<close> the clock when line 177 runs. \<open>None\<close> is a \<^verbatim>\<open>continue\<close>, \<open>Some\<close> the
  response written to the channel. The parameters \<open>probePortStart\<close> and
  \<open>probePortEnd\<close> are part of the signature and are nowhere read in the body. The
  loop runs for the families \<^verbatim>\<open>ip4\<close> and \<^verbatim>\<open>ip6\<close> only: for any other one
  \<^verbatim>\<open>TCPReceiver\<close> returns an error at line 114.
\<close>

definition ipHdrSize :: "string \<Rightarrow> int" where
  "ipHdrSize af = (if af = ''ip4'' then 20 else 0)"

definition TCPReceiver_packet ::
  "8 word \<Rightarrow> 8 word \<Rightarrow> string \<Rightarrow> string \<Rightarrow> int \<Rightarrow> int \<Rightarrow> int \<Rightarrow> int \<Rightarrow>
   int \<Rightarrow> TCPHeader \<Rightarrow> string \<Rightarrow> int \<Rightarrow> TCPResponse option" where
  "TCPReceiver_packet RST ACK af targetAddr probePortStart probePortEnd targetPort maxTTL
       n tcpHdr fromAddrStr nowMs =
     (if n < ipHdrSize af + 20 then None
      else if uint (Source tcpHdr) \<noteq> targetPort then None
      else if Flags tcpHdr AND RST \<noteq> RST \<and> Flags tcpHdr AND ACK \<noteq> ACK then None
      else if fromAddrStr \<noteq> targetAddr then None
      else
        (case TCPReceiver_stamp (AckNum tcpHdr) of (ttl', ts) \<Rightarrow>
           if ttl' > maxTTL \<or> ttl' < 1 then None
           else
             (let now = now24 nowMs
              in if ts > now then None
                 else Some \<lparr>srcPort = uint (Destination tcpHdr), ttl = ttl', rtt = now - ts\<rparr>)))"

subsection \<open>ICMPReceiver\<close>

text \<open>
  The sizes and the message type chosen by the address family (lines 219-232); any
  other family leaves the three variables at zero.
\<close>

definition outerIPHdrSize :: "string \<Rightarrow> nat" where
  "outerIPHdrSize af = (if af = ''ip4'' then 20 else 0)"

definition innerIPHdrSize :: "string \<Rightarrow> nat" where
  "innerIPHdrSize af = (if af = ''ip4'' then 20 else if af = ''ip6'' then 40 else 0)"

definition icmpMsgType :: "string \<Rightarrow> 8 word" where
  "icmpMsgType af = (if af = ''ip4'' then 11 else if af = ''ip6'' then 3 else 0)"

text \<open>
  The body of the receive loop (lines 246-277) for one packet: \<open>packet\<close> is the receive
  buffer, of length \<open>outerIPHdrSize + 8 + innerIPHdrSize + 8\<close>, so the two bytes read
  at line 255 are inside it; \<open>tcpHdr\<close> is the header parsed from the last eight
  bytes. \<^verbatim>\<open>int(tcpHdr.SeqNum) >> 24\<close> shifts the non-negative 64-bit value of the
  sequence number. The response leaves with the zero value of \<open>fromName\<close>.
\<close>

definition ICMPReceiver_packet ::
  "string \<Rightarrow> nat \<Rightarrow> 8 word list \<Rightarrow> TCPHeader \<Rightarrow> IP \<Rightarrow> int \<Rightarrow> ICMPResponse option" where
  "ICMPReceiver_packet af n packet tcpHdr fromAddr' nowMs =
     (if n < outerIPHdrSize af + 8 + innerIPHdrSize af + 8 then None
      else if packet ! (outerIPHdrSize af) \<noteq> icmpMsgType af
              \<or> packet ! (outerIPHdrSize af + 1) \<noteq> 0 then None
      else
        (let ttl' = uint (SeqNum tcpHdr) div 2 ^ 24;
             ts = SeqNum tcpHdr AND 0x00ffffff;
             now = now24 nowMs
         in Some \<lparr>srcPort = uint (Source tcpHdr), ttl = ttl',
                   fromAddr = fromAddr', fromName = [], rtt = now - ts\<rparr>))"

subsection \<open>Resolver\<close>

text \<open>
  The body of the worker loop (lines 307-321) for one value. \<^verbatim>\<open>net.LookupAddr\<close> is
  the parameter \<open>LookupAddr\<close>, returning the pair of Go: the names and the error,
  \<open>None\<close> for \<^verbatim>\<open>nil\<close>. \<^verbatim>\<open>names[0]\<close> panics on an empty slice. The resolvers
  behind \<^verbatim>\<open>net.LookupAddr\<close> return an error when they have no name to return (the
  system resolver gives one name or an error, Go's own resolver an error when the
  answer holds no PTR record), so a reply without error carries at least one name.
\<close>

definition Resolver_val ::
  "(IP \<Rightarrow> string list \<times> string option) \<Rightarrow> val \<Rightarrow> error + val" where
  "Resolver_val LookupAddr v =
     (case v of
        ICMP resp \<Rightarrow>
          (case LookupAddr (fromAddr resp) of (names, err) \<Rightarrow>
             if err \<noteq> None then Inr (ICMP (resp\<lparr>fromName := ''?''\<rparr>))
             else (case names of
                     [] \<Rightarrow> Inl IndexOutOfRange
                   | name # _ \<Rightarrow> Inr (ICMP (resp\<lparr>fromName := name\<rparr>))))
      | _ \<Rightarrow> Inr v)"

section \<open>The correlator of main\<close>

subsection \<open>Flags, counters and channels\<close>

text \<open>The command-line flags that the correlator reads, and the local \<^verbatim>\<open>target\<close>.\<close>

record flags =
  maxTTL :: int
  minTTL :: int
  maxSrcPorts :: int
  baseSrcPort :: int
  target :: string

text \<open>
  \<^verbatim>\<open>Report\<close>: three Go maps from the source port to a slice. Reading a key that is
  not in a map gives the nil slice, of length 0. A counter grows by one for each event
  read; a run lasts \<open>maxTime\<close> seconds, far from the \<open>2^63\<close> events that would
  overflow Go's \<^verbatim>\<open>int\<close>, so the counters are integers here.
\<close>

record Report =
  Paths :: "int \<rightharpoonup> string list"
  Sent :: "int \<rightharpoonup> int list"
  Rcvd :: "int \<rightharpoonup> int list"

definition row :: "(int \<rightharpoonup> 'a list) \<Rightarrow> int \<Rightarrow> 'a list" where
  "row m k = (case m k of None \<Rightarrow> [] | Some xs \<Rightarrow> xs)"

text \<open>An index expression \<^verbatim>\<open>xs[i]\<close> panics unless \<open>0 \<le> i < len(xs)\<close>.\<close>

definition index_ok :: "'a list \<Rightarrow> int \<Rightarrow> bool" where
  "index_ok xs i = (0 \<le> i \<and> i < int (length xs))"

text \<open>
  A channel variable is nil until \<^verbatim>\<open>make\<close> is called; \<^verbatim>\<open>close\<close> panics on a nil
  channel and on a channel that is closed already.
\<close>

datatype chan = NilChan | OpenChan | ClosedChan

definition close_chan :: "int \<Rightarrow> chan list \<Rightarrow> error + chan list" where
  "close_chan i sd =
     (if \<not> index_ok sd i then Inl IndexOutOfRange
      else (case sd ! nat i of
              NilChan \<Rightarrow> Inl CloseOfNilChannel
            | ClosedChan \<Rightarrow> Inl CloseOfClosedChannel
            | OpenChan \<Rightarrow> Inr (sd[nat i := ClosedChan])))"

text \<open>
  A counting loop \<^verbatim>\<open>for i := a; i <= b; i++\<close> whose body changes neither \<open>i\<close> nor
  the bound runs its body over \<open>[a..b]\<close>; a panic in the body ends it.
\<close>

fun for_each :: "'i list \<Rightarrow> ('i \<Rightarrow> 's \<Rightarrow> error + 's) \<Rightarrow> 's \<Rightarrow> error + 's" where
  "for_each [] body s = Inr s"
| "for_each (i # is) body s =
     (case body i s of Inl e \<Rightarrow> Inl e | Inr s' \<Rightarrow> for_each is body s')"

record state =
  counters :: Report
  flappedPorts :: "int set"
  names :: "string list"
  lastClosed :: int
  senderDone :: "chan list"

subsection \<open>Start-up\<close>

text \<open>
  Lines 590-599: the slice of \<open>maxTTL\<close> nil channels, and one channel made for every
  TTL from \<open>minTTL\<close> to \<open>maxTTL\<close>. \<^verbatim>\<open>make\<close> panics on a negative length. (It
  also fails on a length that the machine cannot allocate; the program then ends at
  line 590 and there is no run. The model puts no upper bound on the length.)
\<close>

definition make_chan :: "int \<Rightarrow> chan list \<Rightarrow> error + chan list" where
  "make_chan ttl' sd =
     (if index_ok sd (ttl' - 1) then Inr (sd[nat (ttl' - 1) := OpenChan])
      else Inl IndexOutOfRange)"

definition init_senderDone :: "flags \<Rightarrow> error + chan list" where
  "init_senderDone fl =
     (if maxTTL fl < 0 then Inl LenOutOfRange
      else for_each [minTTL fl..maxTTL fl] make_chan (replicate (nat (maxTTL fl)) NilChan))"

text \<open>
  Go's \<^verbatim>\<open>int\<close> arithmetic wraps around at 64 bits. The flags are \<^verbatim>\<open>int\<close> values
  that the user chooses, so the sum \<^verbatim>\<open>*baseSrcPort+*maxSrcPorts\<close>, the bound of the
  loop at line 631, is taken with its wrap-around: with the base port \<open>2^63 - 1\<close> and
  one port the bound is \<open>- 2^63\<close> and the loop visits no port.
\<close>

definition int64 :: "int \<Rightarrow> int" where
  "int64 x = (x + 2 ^ 63) mod 2 ^ 64 - 2 ^ 63"

definition sweepEnd :: "flags \<Rightarrow> int" where
  "sweepEnd fl = int64 (baseSrcPort fl + maxSrcPorts fl)"

text \<open>
  Lines 629-640: one row of each kind for every source port of the sweep, the ports
  \<open>srcPort\<close> with \<open>baseSrcPort \<le> srcPort < sweepEnd\<close>. The loop variable stays
  below the bound, so its increment does not wrap.
\<close>

definition make_rows :: "flags \<Rightarrow> int \<Rightarrow> Report \<Rightarrow> error + Report" where
  "make_rows fl srcPort' c =
     (if maxTTL fl < 0 then Inl LenOutOfRange
      else Inr \<lparr>Paths = (Paths c)(srcPort' \<mapsto> replicate (nat (maxTTL fl)) ''?''),
                Sent = (Sent c)(srcPort' \<mapsto> replicate (nat (maxTTL fl)) 0),
                Rcvd = (Rcvd c)(srcPort' \<mapsto> replicate (nat (maxTTL fl)) 0)\<rparr>)"

definition newReport :: Report where
  "newReport = \<lparr>Paths = Map.empty, Sent = Map.empty, Rcvd = Map.empty\<rparr>"

definition init_counters :: "flags \<Rightarrow> error + Report" where
  "init_counters fl =
     for_each [baseSrcPort fl..sweepEnd fl - 1] (make_rows fl) newReport"

text \<open>The state in which the two consuming loops start (line 661 sets \<open>lastClosed\<close>).\<close>

definition init :: "flags \<Rightarrow> error + state" where
  "init fl =
     (case init_senderDone fl of
        Inl e \<Rightarrow> Inl e
      | Inr sd \<Rightarrow>
          (case init_counters fl of
             Inl e \<Rightarrow> Inl e
           | Inr c \<Rightarrow>
               Inr \<lparr>counters = c, flappedPorts = {}, names = [],
                    lastClosed = maxTTL fl, senderDone = sd\<rparr>))"

subsection \<open>The two consuming loops\<close>

text \<open>\<^verbatim>\<open>m[k][i]++\<close> on a map of counter rows.\<close>

definition incr :: "(int \<rightharpoonup> int list) \<Rightarrow> int \<Rightarrow> int \<Rightarrow> error + (int \<rightharpoonup> int list)" where
  "incr m k i =
     (let xs = row m k
      in if index_ok xs i then Inr (m(k \<mapsto> xs[nat i := xs ! nat i + 1]))
         else Inl IndexOutOfRange)"

text \<open>Lines 644-647, one probe read from the merged sender channels.\<close>

definition on_probe :: "Probe \<Rightarrow> state \<Rightarrow> error + state" where
  "on_probe probe s =
     (case incr (Sent (counters s)) (srcPort probe) (ttl probe - 1) of
        Inl e \<Rightarrow> Inl e
      | Inr sent \<Rightarrow> Inr (s\<lparr>counters := (counters s)\<lparr>Sent := sent\<rparr>\<rparr>))"

text \<open>Lines 664-676, one \<^verbatim>\<open>ICMPResponse\<close> read from the merged resolver channels.\<close>

definition on_icmp :: "ICMPResponse \<Rightarrow> state \<Rightarrow> error + state" where
  "on_icmp resp s =
     (case incr (Rcvd (counters s)) (srcPort resp) (ttl resp - 1) of
        Inl e \<Rightarrow> Inl e
      | Inr rcvd \<Rightarrow>
          (let hops = row (Paths (counters s)) (srcPort resp)
           in if \<not> index_ok hops (ttl resp - 1) then Inl IndexOutOfRange
              else
                (let currName = hops ! nat (ttl resp - 1);
                     flapped = (if currName \<noteq> ''?'' \<and> currName \<noteq> fromName resp
                                then insert (srcPort resp) (flappedPorts s)
                                else flappedPorts s)
                 in Inr (s\<lparr>counters := (counters s)
                             \<lparr>Rcvd := rcvd,
                              Paths := (Paths (counters s))
                                (srcPort resp \<mapsto> hops[nat (ttl resp - 1) := fromName resp])\<rparr>,
                           flappedPorts := flapped,
                           names := names s @ [fromName resp]\<rparr>))))"

text \<open>
  Lines 678-692, one \<^verbatim>\<open>TCPResponse\<close>: the loop closes \<^verbatim>\<open>senderDone[i]\<close> for
  \<open>i = resp.ttl, \<dots>, lastClosed - 1\<close>; the channel at index \<open>i\<close> was handed to the
  sender of TTL \<open>i + 1\<close> (line 593).
\<close>

definition on_tcp :: "string \<Rightarrow> TCPResponse \<Rightarrow> state \<Rightarrow> error + state" where
  "on_tcp target' resp s =
     (case for_each [ttl resp..lastClosed s - 1] close_chan (senderDone s) of
        Inl e \<Rightarrow> Inl e
      | Inr sd \<Rightarrow>
          (let lc = (if ttl resp < lastClosed s then ttl resp else lastClosed s)
           in case incr (Rcvd (counters s)) (srcPort resp) (ttl resp - 1) of
                Inl e \<Rightarrow> Inl e
              | Inr rcvd \<Rightarrow>
                  (let hops = row (Paths (counters s)) (srcPort resp)
                   in if \<not> index_ok hops (ttl resp - 1) then Inl IndexOutOfRange
                      else Inr (s\<lparr>senderDone := sd, lastClosed := lc,
                                   counters := (counters s)
                                     \<lparr>Rcvd := rcvd,
                                      Paths := (Paths (counters s))
                                        (srcPort resp \<mapsto> hops[nat (ttl resp - 1) := target'])\<rparr>\<rparr>))))"

text \<open>
  The probes are counted by one goroutine and the responses by the main goroutine; the
  first writes only \<open>Sent\<close> rows, the second only the rest of the state. A run is an
  interleaving of the values the two loops read, each loop body taken as one step.
\<close>

definition step :: "flags \<Rightarrow> val \<Rightarrow> state \<Rightarrow> error + state" where
  "step fl v s =
     (case v of
        ProbeV probe \<Rightarrow> on_probe probe s
      | ICMP resp \<Rightarrow> on_icmp resp s
      | TCP resp \<Rightarrow> on_tcp (target fl) resp s)"

definition run :: "flags \<Rightarrow> val list \<Rightarrow> error + state" where
  "run fl vals =
     (case init fl of Inl e \<Rightarrow> Inl e | Inr s \<Rightarrow> for_each vals (step fl) s)"

subsection \<open>Truncation of the rows\<close>

text \<open>
  Lines 697-705 for one path row: the first index \<open>i\<close> with
  \<^verbatim>\<open>hopVector[i] == target && i < *maxTTL-1\<close>, searched from index \<open>i\<close> on.
\<close>

fun first_target :: "string list \<Rightarrow> string \<Rightarrow> int \<Rightarrow> nat \<Rightarrow> nat option" where
  "first_target [] target' maxTTL' i = None"
| "first_target (hop # hopVector) target' maxTTL' i =
     (if hop = target' \<and> int i < maxTTL' - 1 then Some i
      else first_target hopVector target' maxTTL' (i + 1))"

text \<open>
  One iteration of the loop at line 696. The rows of \<open>Sent\<close> and \<open>Rcvd\<close> are resliced
  and stored back into their maps; the resliced \<open>hopVector\<close> is the loop's own
  variable and is not stored, so \<open>Paths\<close> keeps its row. A row made by \<^verbatim>\<open>make\<close>
  with one argument has its length as capacity, the bound of a reslice.
\<close>

definition reslice :: "'a list \<Rightarrow> nat \<Rightarrow> error + 'a list" where
  "reslice xs n = (if n \<le> length xs then Inr (take n xs) else Inl IndexOutOfRange)"

definition truncate_row :: "flags \<Rightarrow> int \<Rightarrow> Report \<Rightarrow> error + Report" where
  "truncate_row fl srcPort' c =
     (case first_target (row (Paths c) srcPort') (target fl) (maxTTL fl) 0 of
        None \<Rightarrow> Inr c
      | Some i \<Rightarrow>
          (case reslice (row (Sent c) srcPort') (i + 1) of
             Inl e \<Rightarrow> Inl e
           | Inr sent \<Rightarrow>
               (case reslice (row (Rcvd c) srcPort') (i + 1) of
                  Inl e \<Rightarrow> Inl e
                | Inr rcvd \<Rightarrow>
                    Inr (c\<lparr>Sent := (Sent c)(srcPort' \<mapsto> sent),
                           Rcvd := (Rcvd c)(srcPort' \<mapsto> rcvd)\<rparr>))))"

text \<open>
  The loop over the keys of \<open>Paths\<close>, which are the source ports of the sweep. Go
  visits them in no fixed order; an iteration reads and writes the rows of its own
  port only.
\<close>

definition truncate_rows :: "flags \<Rightarrow> Report \<Rightarrow> error + Report" where
  "truncate_rows fl c =
     for_each [baseSrcPort fl..sweepEnd fl - 1] (truncate_row fl) c"

text \<open>The counters when the response stream has closed and the rows are truncated.\<close>

definition final_counters :: "flags \<Rightarrow> val list \<Rightarrow> error + Report" where
  "final_counters fl vals =
     (case run fl vals of Inl e \<Rightarrow> Inl e | Inr s \<Rightarrow> truncate_rows fl (counters s))"

subsection \<open>The report\<close>

text \<open>
  \<^verbatim>\<open>normalizeRcvd\<close> (lines 447-458). \<^verbatim>\<open>float64(rcvd[i]) / float64(sent[i])\<close>
  divides two converted integers: by zero the quotient is NaN or an infinity, and
  otherwise it is the rounded quotient of the rounded operands, a finite number. The
  rounding of a real to the nearest float64 is the parameter \<open>rnd\<close>, so that what is
  proved holds whatever it is. \<open>None\<close> is the error returned on rows of different
  lengths.
\<close>

definition float64_quot :: "(real \<Rightarrow> real) \<Rightarrow> int \<Rightarrow> int \<Rightarrow> float64" where
  "float64_quot rnd a b =
     (if b = 0 then (if a = 0 then NaN else if 0 < a then PInf else NInf)
      else Fin (rnd (rnd (real_of_int a) / rnd (real_of_int b))))"

definition normalizeRcvd :: "(real \<Rightarrow> real) \<Rightarrow> int list \<Rightarrow> int list \<Rightarrow> float64 list option" where
  "normalizeRcvd rnd sent rcvd =
     (if length rcvd \<noteq> length sent then None
      else Some (map (\<lambda>i. float64_quot rnd (rcvd ! i) (sent ! i)) [0..<length sent]))"

text \<open>
  One iteration of the loop at line 715, which fills the report \<^verbatim>\<open>lossyCounters\<close>
  from the counters: a port that flapped is skipped, and so is a port without a row
  in \<open>Rcvd\<close> or with rows that cannot be normalised. A port that is reported gets
  the rows of \<open>Sent\<close> and \<open>Rcvd\<close> as they are and the first \<open>len(norm)\<close> hops of its
  path; reading a hop beyond the path row panics. The flag \<^verbatim>\<open>showAll\<close> is read here
  only and is a parameter; the variable \<open>norm\<close> of the source carries a prime.
\<close>

definition report_port ::
  "(real \<Rightarrow> real) \<Rightarrow> bool \<Rightarrow> Report \<Rightarrow> int set \<Rightarrow> int \<Rightarrow> Report \<Rightarrow> error + Report" where
  "report_port rnd showAll' c flapped port lossyCounters =
     (if port \<in> flapped then Inr lossyCounters
      else
        (case Rcvd c port of
           None \<Rightarrow> Inr lossyCounters
         | Some rcvdVector \<Rightarrow>
             (let sentVector = row (Sent c) port
              in case normalizeRcvd rnd sentVector rcvdVector of
                   None \<Rightarrow> Inr lossyCounters
                 | Some norm' \<Rightarrow>
                     if isLossy norm' \<or> showAll' then
                       (if length norm' \<le> length (row (Paths c) port) then
                          Inr \<lparr>Paths = (Paths lossyCounters)
                                 (port \<mapsto> take (length norm') (row (Paths c) port)),
                               Sent = (Sent lossyCounters)(port \<mapsto> sentVector),
                               Rcvd = (Rcvd lossyCounters)(port \<mapsto> rcvdVector)\<rparr>
                        else Inl IndexOutOfRange)
                     else Inr lossyCounters)))"

text \<open>
  The loop over the keys of \<open>Sent\<close>, the source ports of the sweep, and the report of
  a whole execution: the run, the truncation, the report.
\<close>

definition lossy_report ::
  "(real \<Rightarrow> real) \<Rightarrow> bool \<Rightarrow> flags \<Rightarrow> Report \<Rightarrow> int set \<Rightarrow> error + Report" where
  "lossy_report rnd showAll' fl c flapped =
     for_each [baseSrcPort fl..sweepEnd fl - 1] (report_port rnd showAll' c flapped) newReport"

definition final_report ::
  "(real \<Rightarrow> real) \<Rightarrow> bool \<Rightarrow> flags \<Rightarrow> val list \<Rightarrow> error + Report" where
  "final_report rnd showAll' fl vals =
     (case run fl vals of
        Inl e \<Rightarrow> Inl e
      | Inr s \<Rightarrow>
          (case truncate_rows fl (counters s) of
             Inl e \<Rightarrow> Inl e
           | Inr c \<Rightarrow> lossy_report rnd showAll' fl c (flappedPorts s)))"

section \<open>Observations on runs\<close>

text \<open>The source ports of the sweep: the ports that the loop at line 631 visits.\<close>

definition in_sweep :: "flags \<Rightarrow> int \<Rightarrow> bool" where
  "in_sweep fl p = (baseSrcPort fl \<le> p \<and> p < sweepEnd fl)"

text \<open>
  The probes and the responses of a run that belong to the cell of port \<open>p\<close> and TTL
  \<open>t\<close>, counted; and the TTLs of its TCP responses, in the order read.
\<close>

definition is_probe_for :: "int \<Rightarrow> int \<Rightarrow> val \<Rightarrow> bool" where
  "is_probe_for p t v = (case v of ProbeV probe \<Rightarrow> srcPort probe = p \<and> ttl probe = t | _ \<Rightarrow> False)"

definition is_response_for :: "int \<Rightarrow> int \<Rightarrow> val \<Rightarrow> bool" where
  "is_response_for p t v =
     (case v of
        ICMP resp \<Rightarrow> srcPort resp = p \<and> ttl resp = t
      | TCP resp \<Rightarrow> srcPort resp = p \<and> ttl resp = t
      | _ \<Rightarrow> False)"

definition probes_for :: "val list \<Rightarrow> int \<Rightarrow> int \<Rightarrow> int" where
  "probes_for vals p t = int (length (filter (is_probe_for p t) vals))"

definition responses_for :: "val list \<Rightarrow> int \<Rightarrow> int \<Rightarrow> int" where
  "responses_for vals p t = int (length (filter (is_response_for p t) vals))"

fun tcp_ttls :: "val list \<Rightarrow> int list" where
  "tcp_ttls [] = []"
| "tcp_ttls (TCP resp # vals) = ttl resp # tcp_ttls vals"
| "tcp_ttls (v # vals) = tcp_ttls vals"

text \<open>
  An event is expected when its port and TTL are those of a probe that a sender of
  this run emits.
\<close>

definition expected :: "flags \<Rightarrow> val \<Rightarrow> bool" where
  "expected fl v =
     (case v of
        ProbeV probe \<Rightarrow> in_sweep fl (srcPort probe) \<and> minTTL fl \<le> ttl probe \<and> ttl probe \<le> maxTTL fl
      | ICMP resp \<Rightarrow> in_sweep fl (srcPort resp) \<and> minTTL fl \<le> ttl resp \<and> ttl resp \<le> maxTTL fl
      | TCP resp \<Rightarrow> in_sweep fl (srcPort resp) \<and> minTTL fl \<le> ttl resp \<and> ttl resp \<le> maxTTL fl)"

text \<open>
  The outcome of a run as seen from outside: the panic, one cell of the counters, the
  stop channels, the lengths and the path of a port once the rows are truncated, and
  the rows of a port in the report.
\<close>

definition panic_of :: "error + 'a \<Rightarrow> error option" where
  "panic_of r = (case r of Inl e \<Rightarrow> Some e | Inr x \<Rightarrow> None)"

definition sent_after :: "flags \<Rightarrow> val list \<Rightarrow> int \<Rightarrow> int \<Rightarrow> error + int" where
  "sent_after fl vals p t = map_sum id (\<lambda>s. row (Sent (counters s)) p ! nat (t - 1)) (run fl vals)"

definition rcvd_after :: "flags \<Rightarrow> val list \<Rightarrow> int \<Rightarrow> int \<Rightarrow> error + int" where
  "rcvd_after fl vals p t = map_sum id (\<lambda>s. row (Rcvd (counters s)) p ! nat (t - 1)) (run fl vals)"

definition senderDone_after :: "flags \<Rightarrow> val list \<Rightarrow> error + chan list" where
  "senderDone_after fl vals = map_sum id senderDone (run fl vals)"

definition lengths_after :: "flags \<Rightarrow> val list \<Rightarrow> int \<Rightarrow> error + nat \<times> nat \<times> nat" where
  "lengths_after fl vals p =
     map_sum id
       (\<lambda>c. (length (row (Paths c) p), length (row (Sent c) p), length (row (Rcvd c) p)))
       (final_counters fl vals)"

definition paths_after :: "flags \<Rightarrow> val list \<Rightarrow> int \<Rightarrow> error + string list" where
  "paths_after fl vals p = map_sum id (\<lambda>c. row (Paths c) p) (final_counters fl vals)"

definition report_cells ::
  "(real \<Rightarrow> real) \<Rightarrow> bool \<Rightarrow> flags \<Rightarrow> val list \<Rightarrow> int \<Rightarrow> error + int list \<times> int list" where
  "report_cells rnd showAll' fl vals p =
     map_sum id (\<lambda>rep. (row (Sent rep) p, row (Rcvd rep) p)) (final_report rnd showAll' fl vals)"

subsection \<open>Invariants used in the proofs\<close>

text \<open>
  The stop channels as a function of \<open>lastClosed\<close>: closed from index \<open>lastClosed\<close>
  on, below it as they were made at start-up. The counter rows: of length \<open>maxTTL\<close>
  for a port of the sweep, absent or empty otherwise.
\<close>

definition chan_at :: "flags \<Rightarrow> int \<Rightarrow> nat \<Rightarrow> chan" where
  "chan_at fl lc i =
     (if lc \<le> int i then ClosedChan else if minTTL fl \<le> int i + 1 then OpenChan else NilChan)"

definition chans_ok :: "flags \<Rightarrow> state \<Rightarrow> bool" where
  "chans_ok fl s =
     (length (senderDone s) = nat (maxTTL fl) \<and> lastClosed s \<le> maxTTL fl \<and>
      (\<forall>i<nat (maxTTL fl). senderDone s ! i = chan_at fl (lastClosed s) i))"

definition rowlen :: "flags \<Rightarrow> int \<Rightarrow> nat" where
  "rowlen fl p = (if in_sweep fl p then nat (maxTTL fl) else 0)"

definition shape :: "flags \<Rightarrow> Report \<Rightarrow> bool" where
  "shape fl c =
     (\<forall>p. length (row (Sent c) p) = rowlen fl p \<and> length (row (Rcvd c) p) = rowlen fl p
          \<and> length (row (Paths c) p) = rowlen fl p)"

definition state_ok :: "flags \<Rightarrow> state \<Rightarrow> bool" where
  "state_ok fl s = (chans_ok fl s \<and> shape fl (counters s))"

text \<open>
  The rows of \<open>Sent\<close> and \<open>Rcvd\<close> after the truncation are initial segments, of one
  length, of the rows before it; a row of the report is absent or is the row of the
  counters.
\<close>

definition cut_of :: "Report \<Rightarrow> Report \<Rightarrow> bool" where
  "cut_of c c' =
     (\<forall>p. \<exists>n. row (Sent c') p = take n (row (Sent c) p) \<and> row (Rcvd c') p = take n (row (Rcvd c) p))"

definition rows_of :: "Report \<Rightarrow> Report \<Rightarrow> bool" where
  "rows_of c rep =
     (\<forall>p. (row (Sent rep) p = [] \<and> row (Rcvd rep) p = [])
          \<or> (row (Sent rep) p = row (Sent c) p \<and> row (Rcvd rep) p = row (Rcvd c) p))"

text \<open>The loop invariants of the start-up loops and of the loop at line 684.\<close>

definition made_upto :: "nat \<Rightarrow> int \<Rightarrow> int \<Rightarrow> chan list \<Rightarrow> bool" where
  "made_upto n a i sd =
     (length sd = n \<and>
      (\<forall>k<n. sd ! k = (if a \<le> int k + 1 \<and> int k + 1 < i then OpenChan else NilChan)))"

definition rows_upto :: "flags \<Rightarrow> int \<Rightarrow> Report \<Rightarrow> bool" where
  "rows_upto fl i c =
     (\<forall>p. row (Sent c) p = (if baseSrcPort fl \<le> p \<and> p < i then replicate (nat (maxTTL fl)) 0 else [])
        \<and> row (Rcvd c) p = (if baseSrcPort fl \<le> p \<and> p < i then replicate (nat (maxTTL fl)) 0 else [])
        \<and> row (Paths c) p = (if baseSrcPort fl \<le> p \<and> p < i then replicate (nat (maxTTL fl)) ''?'' else []))"

definition closed_upto :: "chan list \<Rightarrow> int \<Rightarrow> int \<Rightarrow> chan list \<Rightarrow> bool" where
  "closed_upto sd0 a i sd =
     (length sd = length sd0 \<and>
      (\<forall>k<length sd0. sd ! k = (if a \<le> int k \<and> int k < i then ClosedChan else sd0 ! k)))"

section \<open>Properties of the classifier\<close>

lemma f64_ge_iff_not_lt: "x \<noteq> NaN \<Longrightarrow> y \<noteq> NaN \<Longrightarrow> (\<not> f64_ge x y) = f64_lt x y"
  by (cases x; cases y) auto

lemma isLossy_inner_iff:
  "isLossy_inner h i j = (\<forall>k. j \<le> k \<and> k < length h \<longrightarrow> \<not> f64_ge (h ! k) (h ! i))"
proof (induction h i j rule: isLossy_inner.induct)
  case (1 h i j)
  show ?case
  proof (cases "j < length h")
    case False
    then show ?thesis by (subst isLossy_inner.simps) auto
  next
    case True
    show ?thesis
    proof (cases "f64_ge (h ! j) (h ! i)")
      case True
      with \<open>j < length h\<close> show ?thesis
        by (subst isLossy_inner.simps) auto
    next
      case False
      have "isLossy_inner h i j = isLossy_inner h i (j + 1)"
        using False \<open>j < length h\<close> by (subst isLossy_inner.simps) simp
      also have "\<dots> = (\<forall>k. j + 1 \<le> k \<and> k < length h \<longrightarrow> \<not> f64_ge (h ! k) (h ! i))"
        using "1.IH" [OF \<open>j < length h\<close> False] .
      also have "\<dots> = (\<forall>k. j \<le> k \<and> k < length h \<longrightarrow> \<not> f64_ge (h ! k) (h ! i))"
      proof
        assume a: "\<forall>k. j + 1 \<le> k \<and> k < length h \<longrightarrow> \<not> f64_ge (h ! k) (h ! i)"
        show "\<forall>k. j \<le> k \<and> k < length h \<longrightarrow> \<not> f64_ge (h ! k) (h ! i)"
        proof (intro allI impI)
          fix k assume "j \<le> k \<and> k < length h"
          then consider "k = j" | "j + 1 \<le> k \<and> k < length h" by linarith
          then show "\<not> f64_ge (h ! k) (h ! i)" using False a by cases auto
        qed
      next
        assume "\<forall>k. j \<le> k \<and> k < length h \<longrightarrow> \<not> f64_ge (h ! k) (h ! i)"
        then show "\<forall>k. j + 1 \<le> k \<and> k < length h \<longrightarrow> \<not> f64_ge (h ! k) (h ! i)" by simp
      qed
      finally show ?thesis .
    qed
  qed
qed

lemma isLossy_inner_none_ge: "isLossy_inner h i (Suc i) = none_ge h i"
  unfolding isLossy_inner_iff none_ge_def by (simp add: Suc_le_eq)

declare isLossy_inner.simps [simp del]
declare isLossy_outer.simps [simp del]

lemma isLossy_outer_found: "isLossy_outer h i True s = (True, s)"
  by (subst isLossy_outer.simps) simp

lemma isLossy_outer_search:
  "isLossy_outer h i False s = (f, s') \<Longrightarrow>
     (f \<and> 2 < s') = (\<exists>k\<ge>i. 2 < length h - k \<and> none_ge h k)"
proof (induction h i "False" s arbitrary: f s' rule: isLossy_outer.induct)
  case (1 h i s)
  show ?case
  proof (cases "i + 1 < length h")
    case False
    with "1.prems" have "f = False"
      by (subst (asm) isLossy_outer.simps) simp
    moreover have "\<not> (\<exists>k\<ge>i. 2 < length h - k \<and> none_ge h k)"
      using False by auto
    ultimately show ?thesis by simp
  next
    case True
    have step: "isLossy_outer h (i + 1) (none_ge h i) (length h - i) = (f, s')"
      using "1.prems" True
      by (subst (asm) isLossy_outer.simps) (simp add: isLossy_inner_none_ge)
    show ?thesis
    proof (cases "none_ge h i")
      case True
      with step have fs: "f = True" "s' = length h - i"
        by (simp_all add: isLossy_outer_found)
      show ?thesis
      proof (cases "2 < length h - i")
        case True
        with \<open>none_ge h i\<close> fs show ?thesis by auto
      next
        case False
        then have "\<not> (\<exists>k\<ge>i. 2 < length h - k \<and> none_ge h k)" by auto
        with False fs show ?thesis by simp
      qed
    next
      case False
      have inner: "isLossy_inner h i (i + 1) = False"
        using False by (simp add: isLossy_inner_none_ge)
      have cond: "i + 1 < length h \<and> \<not> False"
        using True by simp
      have "(f \<and> 2 < s') = (\<exists>k\<ge>i + 1. 2 < length h - k \<and> none_ge h k)"
        using "1.hyps" [OF cond inner] step False by simp
      also have "\<dots> = (\<exists>k\<ge>i. 2 < length h - k \<and> none_ge h k)"
      proof
        assume "\<exists>k\<ge>i + 1. 2 < length h - k \<and> none_ge h k"
        then obtain k where "k \<ge> i + 1" "2 < length h - k" "none_ge h k" by blast
        then have "k \<ge> i \<and> 2 < length h - k \<and> none_ge h k" by simp
        then show "\<exists>k\<ge>i. 2 < length h - k \<and> none_ge h k" by blast
      next
        assume "\<exists>k\<ge>i. 2 < length h - k \<and> none_ge h k"
        then obtain k where k: "k \<ge> i" "2 < length h - k" "none_ge h k" by blast
        with False have "k \<noteq> i" by auto
        with k have "k \<ge> i + 1" by simp
        with k show "\<exists>k\<ge>i + 1. 2 < length h - k \<and> none_ge h k" by blast
      qed
      finally show ?thesis .
    qed
  qed
qed

lemma isLossy_iff_none_ge: "isLossy h = (\<exists>i. 2 < length h - i \<and> none_ge h i)"
proof -
  obtain f s' where r: "isLossy_outer h 0 False 0 = (f, s')"
    by (cases "isLossy_outer h 0 False 0")
  have "isLossy h = (f \<and> 2 < s')"
    by (auto simp: isLossy_def r)
  with isLossy_outer_search [OF r] show ?thesis by simp
qed

lemma none_ge_dominates:
  "NaN \<notin> set h \<Longrightarrow> i < length h \<Longrightarrow> none_ge h i = dominates h i"
proof -
  assume n: "NaN \<notin> set h" and i: "i < length h"
  have "\<And>j. j < length h \<Longrightarrow> (\<not> f64_ge (h ! j) (h ! i)) = f64_lt (h ! j) (h ! i)"
    using n i by (metis f64_ge_iff_not_lt nth_mem)
  then show ?thesis
    by (auto simp: none_ge_def dominates_def)
qed

lemma isLossy_iff_spec_lossy: "NaN \<notin> set h \<Longrightarrow> isLossy h = spec_lossy h"
proof -
  assume n: "NaN \<notin> set h"
  have "(\<exists>i. 2 < length h - i \<and> none_ge h i) = (\<exists>i. 2 < length h - i \<and> i < length h \<and> dominates h i)"
    using none_ge_dominates [OF n] by (metis diff_is_0_eq' leI not_less_zero)
  then show ?thesis
    by (simp add: isLossy_iff_none_ge spec_lossy_def)
qed


text \<open>
  C1. Claim: for every hit-rate vector \<open>h\<close> of length \<open>L\<close>, \<^verbatim>\<open>isLossy(h)\<close> is true
  if and only if some index \<open>i\<close> with \<open>L - i > 2\<close> has \<open>h[j] < h[i]\<close> for every
  \<open>j > i\<close>. The code tests \<open>\<not> (h[j] >= h[i])\<close>, which is the same on numbers
  (\<open>isLossy_iff_spec_lossy\<close> above) and differs on NaN, the quotient of a cell with
  nothing sent and nothing received. With the first TTL not probed and every probe
  of the other three answered, the vector is \<open>[NaN, 1, 1, 1]\<close>: no index dominates
  what follows it, and the code reports the path as lossy.
\<close>

theorem isLossy_NaN_prefix:
  "isLossy [NaN, Fin 1, Fin 1, Fin 1] \<and> \<not> spec_lossy [NaN, Fin 1, Fin 1, Fin 1]"
proof
  show "isLossy [NaN, Fin 1, Fin 1, Fin 1]"
    by (simp add: isLossy_def isLossy_outer.simps isLossy_inner.simps)
  have d0: "\<not> dominates [NaN, Fin 1, Fin 1, Fin 1] 0"
    unfolding dominates_def by (simp add: exI [of _ 1])
  have d1: "\<not> dominates [NaN, Fin 1, Fin 1, Fin 1] 1"
    unfolding dominates_def by (simp add: exI [of _ 2])
  have "i = 0 \<or> i = 1" if "2 < length [NaN, Fin 1, Fin 1, Fin 1] - i" for i
    using that by auto
  with d0 d1 show "\<not> spec_lossy [NaN, Fin 1, Fin 1, Fin 1]"
    unfolding spec_lossy_def by blast
qed

text \<open>
  C2. Claim: \<^verbatim>\<open>isLossy\<close> returns false on \<open>[0.8, 0.9, 0.1, 0.1]\<close>. It does not. (The
  four decimal fractions stand for the float64 values nearest to them, which are
  ordered in the same way.)
\<close>

theorem isLossy_example_not_false:
  "isLossy [Fin 0.8, Fin 0.9, Fin 0.1, Fin 0.1] \<noteq> False"
  by (simp add: isLossy_def isLossy_outer.simps isLossy_inner.simps)

text \<open>
  C2, as the search is written: \<^verbatim>\<open>isLossy\<close> returns true on
  \<open>[0.8, 0.9, 0.1, 0.1]\<close>. The search leaves index 0 at \<open>0.9 >= 0.8\<close> and stops at
  index 1, which is above both samples that follow it, with \<open>segLen = 4 - 1 = 3\<close>.
\<close>

theorem isLossy_example_true:
  "isLossy [Fin 0.8, Fin 0.9, Fin 0.1, Fin 0.1]
   \<and> isLossy_outer [Fin 0.8, Fin 0.9, Fin 0.1, Fin 0.1] 0 False 0 = (True, 3)"
  by (simp add: isLossy_def isLossy_outer.simps isLossy_inner.simps)

section \<open>Properties of the stamp and of the receivers\<close>

lemma mask24: "(0x00ffffff :: 32 word) = mask 24"
  by (simp add: mask_eq_exp_minus_1)

lemma mask8: "(0xff :: 32 word) = mask 8"
  by (simp add: mask_eq_exp_minus_1)

lemma now24_take_bit: "now24 nowMs = take_bit 24 (word_of_int nowMs)"
  by (simp only: now24_def mask24 take_bit_eq_mask)

lemma uint_now24: "uint (now24 nowMs) = nowMs mod 2 ^ 24"
proof -
  have "uint (now24 nowMs) = take_bit 24 nowMs"
    unfolding now24_take_bit by (simp add: unsigned_take_bit_eq uint_word_of_int_eq)
  then show ?thesis by (simp only: take_bit_eq_mod)
qed

lemma Sender_seqNum_bits:
  "Sender_seqNum t nowMs =
     push_bit 24 (take_bit 8 (word_of_int t :: 32 word)) OR take_bit 24 (word_of_int nowMs)"
  by (simp only: Sender_seqNum_def Let_def now24_take_bit mask24 mask8 flip: take_bit_eq_mask)
    simp

lemma Sender_seqNum_low:
  "take_bit 24 (Sender_seqNum t nowMs) = take_bit 24 (word_of_int nowMs)"
  unfolding Sender_seqNum_bits
  by (rule bit_word_eqI) (auto simp add: bit_simps)

lemma Sender_seqNum_high:
  "drop_bit 24 (Sender_seqNum t nowMs) = take_bit 8 (word_of_int t)"
  unfolding Sender_seqNum_bits
  by (rule bit_word_eqI) (auto simp add: bit_simps)

lemma uint_take_bit_8:
  "0 \<le> t \<Longrightarrow> t \<le> 255 \<Longrightarrow> uint (take_bit 8 (word_of_int t :: 32 word)) = t"
proof -
  assume "0 \<le> t" "t \<le> 255"
  have "uint (take_bit 8 (word_of_int t :: 32 word)) = take_bit 8 t"
    by (simp add: unsigned_take_bit_eq uint_word_of_int_eq)
  also have "\<dots> = t mod 2 ^ 8" by (rule take_bit_eq_mod)
  also have "\<dots> = t" using \<open>0 \<le> t\<close> \<open>t \<le> 255\<close> by simp
  finally show ?thesis .
qed

lemma TCPReceiver_stamp_succ:
  "TCPReceiver_stamp (s + 1) = (uint (drop_bit 24 s), take_bit 24 s)"
  by (simp add: TCPReceiver_stamp_def Let_def mask24 flip: take_bit_eq_mask)

text \<open>
  C4. For every TTL \<open>t\<close> in \<open>[1, 255]\<close> and every millisecond time \<open>nowMs\<close>, the
  sequence number \<open>s\<close> of the sender has \<open>(s >> 24) & 0xFF = t\<close> and
  \<open>s & 0x00FFFFFF = nowMs & 0x00FFFFFF\<close>, and the TCP receiver reads from the
  acknowledgement number \<open>s + 1\<close> the TTL \<open>t\<close> and the time stamp \<open>nowMs mod 2^24\<close>.
\<close>

theorem stamp_roundtrip:
  "1 \<le> t \<Longrightarrow> t \<le> 255 \<Longrightarrow>
     uint (drop_bit 24 (Sender_seqNum t nowMs) AND 0xFF) = t
   \<and> Sender_seqNum t nowMs AND 0x00FFFFFF = word_of_int nowMs AND 0x00FFFFFF
   \<and> TCPReceiver_stamp (Sender_seqNum t nowMs + 1) = (t, now24 nowMs)
   \<and> uint (now24 nowMs) = nowMs mod 2 ^ 24"
proof -
  assume t: "1 \<le> t" "t \<le> 255"
  have h: "uint (drop_bit 24 (Sender_seqNum t nowMs)) = t"
    using t by (simp add: Sender_seqNum_high uint_take_bit_8)
  have "drop_bit 24 (Sender_seqNum t nowMs) AND 0xFF = drop_bit 24 (Sender_seqNum t nowMs)"
    by (simp only: mask8 Sender_seqNum_high flip: take_bit_eq_mask) simp
  with h have 1: "uint (drop_bit 24 (Sender_seqNum t nowMs) AND 0xFF) = t" by simp
  have 2: "Sender_seqNum t nowMs AND 0x00FFFFFF = word_of_int nowMs AND 0x00FFFFFF"
    using Sender_seqNum_low [of t nowMs] by (simp only: mask24 flip: take_bit_eq_mask)
  have 3: "TCPReceiver_stamp (Sender_seqNum t nowMs + 1) = (t, now24 nowMs)"
    by (simp only: TCPReceiver_stamp_succ h Sender_seqNum_low now24_take_bit)
  show ?thesis using 1 2 3 uint_now24 by blast
qed

theorem stamp_roundtrip_witness:
  "(1::int) \<le> 30 \<and> (30::int) \<le> 255
   \<and> uint (drop_bit 24 (Sender_seqNum 30 1700000000123) AND 0xFF) = 30
   \<and> TCPReceiver_stamp (Sender_seqNum 30 1700000000123 + 1) = (30, now24 1700000000123)"
  using stamp_roundtrip [of 30 1700000000123] by simp

lemma TCPReceiver_packet_Some:
  assumes "TCPReceiver_packet RST ACK af targetAddr pStart pEnd tPort mTTL n tcpHdr src nowMs = Some r"
  shows "ttl r = fst (TCPReceiver_stamp (AckNum tcpHdr))"
    and "1 \<le> ttl r" and "ttl r \<le> mTTL"
    and "srcPort r = uint (Destination tcpHdr)"
    and "snd (TCPReceiver_stamp (AckNum tcpHdr)) \<le> now24 nowMs"
    and "rtt r = now24 nowMs - snd (TCPReceiver_stamp (AckNum tcpHdr))"
  using assms
  by (auto simp: TCPReceiver_packet_def Let_def split: if_splits prod.splits)

lemma rtt_mod:
  fixes ts :: "32 word"
  assumes "ts \<le> now24 nowMs"
  shows "uint (now24 nowMs - ts) = (nowMs - uint ts) mod 2 ^ 24"
proof -
  have le: "uint ts \<le> uint (now24 nowMs)" using assms by (simp add: word_le_def)
  then have "uint (now24 nowMs - ts) = uint (now24 nowMs) - uint ts"
    by (simp add: uint_sub_if')
  also have "\<dots> = nowMs mod 2 ^ 24 - uint ts" by (simp only: uint_now24)
  finally have e: "uint (now24 nowMs - ts) = nowMs mod 2 ^ 24 - uint ts" .
  have "0 \<le> nowMs mod 2 ^ 24 - uint ts" using le by (simp only: uint_now24)
  moreover have "nowMs mod 2 ^ 24 - uint ts < 2 ^ 24"
  proof -
    have "nowMs mod 2 ^ 24 < (2 ^ 24 :: int)" by simp
    moreover have "0 \<le> uint ts" by simp
    ultimately show ?thesis by linarith
  qed
  ultimately have "(nowMs mod 2 ^ 24 - uint ts) mod 2 ^ 24 = nowMs mod 2 ^ 24 - uint ts"
    by (simp only: mod_pos_pos_trivial)
  moreover have "(nowMs mod 2 ^ 24 - uint ts) mod 2 ^ 24 = (nowMs - uint ts) mod 2 ^ 24"
    by (rule mod_diff_left_eq)
  ultimately show ?thesis using e by simp
qed

lemma rollover_stamp: "snd (TCPReceiver_stamp (Sender_seqNum t 0x00FFFFFE + 1)) = 0xFFFFFE"
proof -
  have "snd (TCPReceiver_stamp (Sender_seqNum t 0x00FFFFFE + 1)) = take_bit 24 (word_of_int 0x00FFFFFE)"
    by (simp only: TCPReceiver_stamp_succ snd_conv Sender_seqNum_low)
  also have "\<dots> = (0xFFFFFE :: 32 word)" by simp
  finally show ?thesis .
qed

lemma rollover_now: "now24 0x01000002 = 2"
  by (simp add: now24_def)

text \<open>
  C5. Claim: a probe stamped at \<open>0x00FFFFFE\<close> whose response is processed when the
  clock reads \<open>0x01000002\<close> gets \<open>rtt_ms = 4\<close> from both receivers. The TCP receiver
  compares the stamp \<open>0xFFFFFE\<close> with the masked clock \<open>2\<close> at line 181 and drops
  the response; the ICMP receiver subtracts without a mask and emits \<open>0xFF000004\<close>.
\<close>

theorem rollover_counterexample:
  "TCPReceiver_packet 4 16 ''ip4'' ''10.0.0.1'' 32768 33024 22 30 40
      \<lparr>Source = 22, Destination = 32768, SeqNum = 0, AckNum = Sender_seqNum 5 0x00FFFFFE + 1, Flags = 0x14\<rparr>
      ''10.0.0.1'' 0x01000002 = None
   \<and> map_option ICMPResponse.rtt
        (ICMPReceiver_packet ''ip4'' 56 (replicate 20 0 @ [11, 0] @ replicate 34 0)
          \<lparr>Source = 32768, Destination = 22, SeqNum = Sender_seqNum 5 0x00FFFFFE, AckNum = 0, Flags = 2\<rparr>
          [10, 0, 0, 254] 0x01000002) = Some 0xFF000004"
  by code_simp

text \<open>
  C5, as the TCP receiver is written: the response of the probe stamped at
  \<open>0x00FFFFFE\<close> is discarded when the clock reads \<open>0x01000002\<close>, whatever the other
  fields are; and every response that the TCP receiver emits has a stamp not above
  the masked clock and \<open>rtt = now - stamp_ts = (now_ms - stamp_ts) mod 2^24\<close>.
\<close>

theorem TCPReceiver_rollover:
  "TCPReceiver_packet RST ACK af targetAddr pStart pEnd tPort mTTL n
       (tcpHdr\<lparr>AckNum := Sender_seqNum t 0x00FFFFFE + 1\<rparr>) src 0x01000002 = None
   \<and> (TCPReceiver_packet RST ACK af targetAddr pStart pEnd tPort mTTL n tcpHdr src nowMs = Some r
        \<longrightarrow> snd (TCPReceiver_stamp (AckNum tcpHdr)) \<le> now24 nowMs
          \<and> rtt r = now24 nowMs - snd (TCPReceiver_stamp (AckNum tcpHdr))
          \<and> uint (rtt r) = (nowMs - uint (snd (TCPReceiver_stamp (AckNum tcpHdr)))) mod 2 ^ 24)"
proof
  have "\<not> (0xFFFFFE :: 32 word) \<le> 2" by simp
  then show "TCPReceiver_packet RST ACK af targetAddr pStart pEnd tPort mTTL n
       (tcpHdr\<lparr>AckNum := Sender_seqNum t 0x00FFFFFE + 1\<rparr>) src 0x01000002 = None"
    using rollover_stamp [of t] rollover_now
    by (cases "TCPReceiver_stamp (Sender_seqNum t 0x00FFFFFE + 1)")
      (simp add: TCPReceiver_packet_def Let_def)
next
  show "TCPReceiver_packet RST ACK af targetAddr pStart pEnd tPort mTTL n tcpHdr src nowMs = Some r
        \<longrightarrow> snd (TCPReceiver_stamp (AckNum tcpHdr)) \<le> now24 nowMs
          \<and> rtt r = now24 nowMs - snd (TCPReceiver_stamp (AckNum tcpHdr))
          \<and> uint (rtt r) = (nowMs - uint (snd (TCPReceiver_stamp (AckNum tcpHdr)))) mod 2 ^ 24"
  proof
    assume a: "TCPReceiver_packet RST ACK af targetAddr pStart pEnd tPort mTTL n tcpHdr src nowMs = Some r"
    from TCPReceiver_packet_Some(5,6) [OF a] rtt_mod [of "snd (TCPReceiver_stamp (AckNum tcpHdr))" nowMs]
    show "snd (TCPReceiver_stamp (AckNum tcpHdr)) \<le> now24 nowMs
          \<and> rtt r = now24 nowMs - snd (TCPReceiver_stamp (AckNum tcpHdr))
          \<and> uint (rtt r) = (nowMs - uint (snd (TCPReceiver_stamp (AckNum tcpHdr)))) mod 2 ^ 24"
      by simp
  qed
qed

theorem TCPReceiver_rollover_witness:
  "TCPReceiver_packet 4 16 ''ip4'' ''10.0.0.1'' 32768 33024 22 30 40
      \<lparr>Source = 22, Destination = 32768, SeqNum = 0, AckNum = Sender_seqNum 5 100 + 1, Flags = 0x14\<rparr>
      ''10.0.0.1'' 104 = Some \<lparr>srcPort = 32768, ttl = 5, rtt = 4\<rparr>
   \<and> uint (4 :: 32 word) = (104 - uint (snd (TCPReceiver_stamp (Sender_seqNum 5 100 + 1)))) mod 2 ^ 24"
proof -
  have e: "TCPReceiver_packet 4 16 ''ip4'' ''10.0.0.1'' 32768 33024 22 30 40
      \<lparr>Source = 22, Destination = 32768, SeqNum = 0, AckNum = Sender_seqNum 5 100 + 1, Flags = 0x14\<rparr>
      ''10.0.0.1'' 104 = Some \<lparr>srcPort = 32768, ttl = 5, rtt = 4\<rparr>"
    by code_simp
  from TCPReceiver_rollover [where RST = 4 and ACK = 16 and af = "''ip4''"
      and targetAddr = "''10.0.0.1''" and pStart = 32768 and pEnd = 33024 and tPort = 22
      and mTTL = 30 and n = 40 and src = "''10.0.0.1''" and nowMs = 104
      and tcpHdr = "\<lparr>Source = 22, Destination = 32768, SeqNum = 0,
                     AckNum = Sender_seqNum 5 100 + 1, Flags = 0x14\<rparr>"
      and r = "\<lparr>srcPort = 32768, ttl = 5, rtt = 4\<rparr>"] e
  show ?thesis by simp
qed

subsection \<open>Resolver\<close>

lemma Resolver_val_cases:
  "Resolver_val L (ICMP resp) =
     (case L (fromAddr resp) of
        (ns, Some e) \<Rightarrow> Inr (ICMP (resp\<lparr>fromName := ''?''\<rparr>))
      | ([], None) \<Rightarrow> Inl IndexOutOfRange
      | (name # ns, None) \<Rightarrow> Inr (ICMP (resp\<lparr>fromName := name\<rparr>)))"
  "Resolver_val L (TCP r) = Inr (TCP r)"
  "Resolver_val L (ProbeV pr) = Inr (ProbeV pr)"
  by (auto simp: Resolver_val_def split: prod.splits list.splits option.splits)

lemma Resolver_val_no_name:
  "Resolver_val (\<lambda>addr. ([], None)) (ICMP resp) = Inl IndexOutOfRange"
  by (simp add: Resolver_val_def)



section \<open>Properties of the correlator\<close>

lemma for_each_append:
  "for_each (xs @ ys) body s =
     (case for_each xs body s of Inl e \<Rightarrow> Inl e | Inr s' \<Rightarrow> for_each ys body s')"
  by (induction xs arbitrary: s) (auto split: sum.splits)

lemma for_each_upto_Inr:
  assumes "for_each [a..c] body s = Inr s'"
    and "P a s"
    and "\<And>i s s'. a \<le> i \<Longrightarrow> i \<le> c \<Longrightarrow> P i s \<Longrightarrow> body i s = Inr s' \<Longrightarrow> P (i + 1) s'"
  shows "P (max a (c + 1)) s'"
  using assms
proof (induction a c arbitrary: s rule: upto.induct)
  case (1 a c)
  show ?case
  proof (cases "a \<le> c")
    case False
    then have "[a..c] = []" by simp
    with "1.prems"(1) have "s' = s" by simp
    moreover from False have "max a (c + 1) = a" by simp
    ultimately show ?thesis using "1.prems"(2) by simp
  next
    case True
    then have u: "[a..c] = a # [a + 1..c]" by (simp add: upto_rec1)
    from "1.prems"(1) obtain s1 where b: "body a s = Inr s1"
      and r: "for_each [a + 1..c] body s1 = Inr s'"
      unfolding u by (auto split: sum.splits)
    have p1: "P (a + 1) s1" using "1.prems"(3) [OF _ True "1.prems"(2) b] by simp
    have "P (max (a + 1) (c + 1)) s'"
    proof (rule "1.IH" [OF True r p1])
      fix i t t' assume "a + 1 \<le> i" "i \<le> c" "P i t" "body i t = Inr t'"
      then show "P (i + 1) t'" using "1.prems"(3) [of i t t'] by simp
    qed
    moreover from True have "max (a + 1) (c + 1) = max a (c + 1)" by simp
    ultimately show ?thesis by simp
  qed
qed

lemma for_each_upto_total:
  assumes "P a s"
    and "\<And>i s. a \<le> i \<Longrightarrow> i \<le> c \<Longrightarrow> P i s \<Longrightarrow> \<exists>s'. body i s = Inr s' \<and> P (i + 1) s'"
  shows "\<exists>s'. for_each [a..c] body s = Inr s' \<and> P (max a (c + 1)) s'"
  using assms
proof (induction a c arbitrary: s rule: upto.induct)
  case (1 a c)
  show ?case
  proof (cases "a \<le> c")
    case False
    then have "[a..c] = []" by simp
    moreover from False have "max a (c + 1) = a" by simp
    ultimately show ?thesis using "1.prems"(1) by simp
  next
    case True
    then have u: "[a..c] = a # [a + 1..c]" by (simp add: upto_rec1)
    from "1.prems"(2) [OF _ True "1.prems"(1)] obtain s1
      where b: "body a s = Inr s1" and p1: "P (a + 1) s1" by auto
    have "\<exists>s'. for_each [a + 1..c] body s1 = Inr s' \<and> P (max (a + 1) (c + 1)) s'"
    proof (rule "1.IH" [OF True p1])
      fix i t assume "a + 1 \<le> i" "i \<le> c" "P i t"
      then show "\<exists>s'. body i t = Inr s' \<and> P (i + 1) s'" using "1.prems"(2) [of i t] by simp
    qed
    moreover from True have "max (a + 1) (c + 1) = max a (c + 1)" by simp
    ultimately show ?thesis unfolding u using b by simp
  qed
qed

lemma for_each_upto_never:
  assumes "P a s"
    and "\<And>i s. a \<le> i \<Longrightarrow> i \<le> c \<Longrightarrow> P i s \<Longrightarrow> body i s \<noteq> Inl e"
    and "\<And>i s s'. a \<le> i \<Longrightarrow> i \<le> c \<Longrightarrow> P i s \<Longrightarrow> body i s = Inr s' \<Longrightarrow> P (i + 1) s'"
  shows "for_each [a..c] body s \<noteq> Inl e"
  using assms
proof (induction a c arbitrary: s rule: upto.induct)
  case (1 a c)
  show ?case
  proof (cases "a \<le> c")
    case False
    then have "[a..c] = []" by simp
    then show ?thesis by simp
  next
    case True
    then have u: "[a..c] = a # [a + 1..c]" by (simp add: upto_rec1)
    have ne: "body a s \<noteq> Inl e" using "1.prems"(2) [OF _ True "1.prems"(1)] by simp
    show ?thesis
    proof (cases "body a s")
      case (Inl e')
      with ne show ?thesis unfolding u by auto
    next
      case (Inr s1)
      have p1: "P (a + 1) s1" using "1.prems"(3) [OF _ True "1.prems"(1) Inr] by simp
      have "for_each [a + 1..c] body s1 \<noteq> Inl e"
      proof (rule "1.IH" [OF True p1])
        fix i t assume "a + 1 \<le> i" "i \<le> c" "P i t"
        then show "body i t \<noteq> Inl e" using "1.prems"(2) [of i t] by simp
      next
        fix i t t' assume "a + 1 \<le> i" "i \<le> c" "P i t" "body i t = Inr t'"
        then show "P (i + 1) t'" using "1.prems"(3) [of i t t'] by simp
      qed
      then show ?thesis unfolding u using Inr by simp
    qed
  qed
qed

lemma row_upd: "row (m(k \<mapsto> xs)) p = (if p = k then xs else row m p)"
  by (simp add: row_def)

lemma incr_Inr:
  assumes "incr m k i = Inr m'"
  shows "index_ok (row m k) i"
    and "row m' p = (if p = k then (row m k)[nat i := row m k ! nat i + 1] else row m p)"
  using assms by (auto simp: incr_def Let_def row_upd split: if_splits)

lemma incr_ok: "index_ok (row m k) i \<Longrightarrow> \<exists>m'. incr m k i = Inr m'"
  by (simp add: incr_def Let_def)

lemma incr_error: "incr m k i = Inl e \<Longrightarrow> e = IndexOutOfRange"
  by (auto simp: incr_def Let_def split: if_splits)

lemma incr_length: "incr m k i = Inr m' \<Longrightarrow> length (row m' p) = length (row m p)"
  by (simp add: incr_Inr(2))

lemma close_chan_Inr:
  "close_chan i sd = Inr sd' \<Longrightarrow>
     index_ok sd i \<and> sd ! nat i = OpenChan \<and> sd' = sd[nat i := ClosedChan]"
  by (auto simp: close_chan_def split: if_splits chan.splits)

lemma close_chan_not_twice:
  "(index_ok sd i \<Longrightarrow> sd ! nat i \<noteq> ClosedChan) \<Longrightarrow> close_chan i sd \<noteq> Inl CloseOfClosedChannel"
  by (auto simp: close_chan_def split: if_splits chan.splits)

lemma close_chan_ok:
  "index_ok sd i \<Longrightarrow> sd ! nat i = OpenChan \<Longrightarrow> close_chan i sd = Inr (sd[nat i := ClosedChan])"
  by (simp add: close_chan_def)

lemma closed_upto_start: "closed_upto sd0 a a sd0"
  by (auto simp: closed_upto_def)

lemma closed_upto_step:
  assumes "a \<le> i" "closed_upto sd0 a i sd" "close_chan i sd = Inr sd'"
  shows "closed_upto sd0 a (i + 1) sd'"
proof -
  from close_chan_Inr [OF assms(3)] have ok: "index_ok sd i" and sd': "sd' = sd[nat i := ClosedChan]"
    by simp_all
  from assms(2) have len: "length sd = length sd0"
    and at: "\<And>k. k < length sd0 \<Longrightarrow> sd ! k = (if a \<le> int k \<and> int k < i then ClosedChan else sd0 ! k)"
    by (simp_all add: closed_upto_def)
  have "sd' ! k = (if a \<le> int k \<and> int k < i + 1 then ClosedChan else sd0 ! k)"
    if k: "k < length sd0" for k
  proof (cases "int k = i")
    case True
    then have "nat i = k" by simp
    with k len sd' have "sd' ! k = ClosedChan" by simp
    with True assms(1) show ?thesis by simp
  next
    case False
    then have "nat i \<noteq> k" using ok by (auto simp: index_ok_def)
    then have "sd' ! k = sd ! k" using sd' by simp
    with at [OF k] False show ?thesis by auto
  qed
  with len sd' show ?thesis by (simp add: closed_upto_def)
qed

lemma close_loop_Inr:
  assumes "for_each [a..c] close_chan sd0 = Inr sd'"
  shows "closed_upto sd0 a (max a (c + 1)) sd'"
  by (rule for_each_upto_Inr [OF assms, where P = "closed_upto sd0 a"])
    (simp_all add: closed_upto_start closed_upto_step)

lemma close_loop_not_twice:
  assumes "\<And>k. k < length sd0 \<Longrightarrow> a \<le> int k \<Longrightarrow> int k \<le> c \<Longrightarrow> sd0 ! k \<noteq> ClosedChan"
  shows "for_each [a..c] close_chan sd0 \<noteq> Inl CloseOfClosedChannel"
proof (rule for_each_upto_never
    [where P = "\<lambda>i sd. length sd = length sd0 \<and> (\<forall>k<length sd0. int k \<ge> i \<longrightarrow> sd ! k = sd0 ! k)"])
  show "length sd0 = length sd0 \<and> (\<forall>k<length sd0. a \<le> int k \<longrightarrow> sd0 ! k = sd0 ! k)" by simp
next
  fix i sd
  assume i: "a \<le> i" "i \<le> c"
    and P: "length sd = length sd0 \<and> (\<forall>k<length sd0. i \<le> int k \<longrightarrow> sd ! k = sd0 ! k)"
  show "close_chan i sd \<noteq> Inl CloseOfClosedChannel"
  proof (rule close_chan_not_twice)
    assume ok: "index_ok sd i"
    then have k: "nat i < length sd0" "int (nat i) = i" using P by (auto simp: index_ok_def)
    then have "sd ! nat i = sd0 ! nat i" using P by simp
    moreover have "sd0 ! nat i \<noteq> ClosedChan" using assms [OF k(1)] k(2) i by simp
    ultimately show "sd ! nat i \<noteq> ClosedChan" by simp
  qed
next
  fix i sd sd'
  assume i: "a \<le> i" "i \<le> c"
    and P: "length sd = length sd0 \<and> (\<forall>k<length sd0. i \<le> int k \<longrightarrow> sd ! k = sd0 ! k)"
    and b: "close_chan i sd = Inr sd'"
  from close_chan_Inr [OF b] have sd': "sd' = sd[nat i := ClosedChan]" and ok: "index_ok sd i"
    by simp_all
  have "sd' ! k = sd0 ! k" if "k < length sd0" "i + 1 \<le> int k" for k
  proof -
    from that ok have "nat i \<noteq> k" by (auto simp: index_ok_def)
    then have "sd' ! k = sd ! k" using sd' by simp
    with P that show ?thesis by simp
  qed
  with P sd' show "length sd' = length sd0 \<and> (\<forall>k<length sd0. i + 1 \<le> int k \<longrightarrow> sd' ! k = sd0 ! k)"
    by simp
qed

lemma close_loop_total:
  assumes "0 \<le> a" "c < int (length sd0)"
    and "\<And>k. k < length sd0 \<Longrightarrow> a \<le> int k \<Longrightarrow> int k \<le> c \<Longrightarrow> sd0 ! k = OpenChan"
  shows "\<exists>sd'. for_each [a..c] close_chan sd0 = Inr sd'"
proof -
  have "\<exists>sd'. for_each [a..c] close_chan sd0 = Inr sd'
      \<and> (length sd' = length sd0 \<and> (\<forall>k<length sd0. int k \<ge> max a (c + 1) \<longrightarrow> sd' ! k = sd0 ! k))"
  proof (rule for_each_upto_total
      [where P = "\<lambda>i sd. length sd = length sd0 \<and> (\<forall>k<length sd0. int k \<ge> i \<longrightarrow> sd ! k = sd0 ! k)"])
    show "length sd0 = length sd0 \<and> (\<forall>k<length sd0. a \<le> int k \<longrightarrow> sd0 ! k = sd0 ! k)" by simp
  next
    fix i sd
    assume i: "a \<le> i" "i \<le> c"
      and P: "length sd = length sd0 \<and> (\<forall>k<length sd0. i \<le> int k \<longrightarrow> sd ! k = sd0 ! k)"
    have ok: "index_ok sd i" using i assms(1,2) P by (simp add: index_ok_def)
    then have k: "nat i < length sd0" "int (nat i) = i" using P by (auto simp: index_ok_def)
    then have "sd ! nat i = sd0 ! nat i" using P by simp
    moreover have "sd0 ! nat i = OpenChan" using assms(3) [OF k(1)] k(2) i by simp
    ultimately have b: "close_chan i sd = Inr (sd[nat i := ClosedChan])"
      using ok by (simp add: close_chan_ok)
    have "(sd[nat i := ClosedChan]) ! k = sd0 ! k" if "k < length sd0" "i + 1 \<le> int k" for k
    proof -
      from that ok have "nat i \<noteq> k" by (auto simp: index_ok_def)
      then have "(sd[nat i := ClosedChan]) ! k = sd ! k" by simp
      with P that show ?thesis by simp
    qed
    with P b show "\<exists>sd'. close_chan i sd = Inr sd' \<and>
        (length sd' = length sd0 \<and> (\<forall>k<length sd0. i + 1 \<le> int k \<longrightarrow> sd' ! k = sd0 ! k))"
      by simp
  qed
  then show ?thesis by blast
qed

subsection \<open>Start-up\<close>

lemma make_chan_Inr:
  "make_chan i sd = Inr sd' \<Longrightarrow> index_ok sd (i - 1) \<and> sd' = sd[nat (i - 1) := OpenChan]"
  by (auto simp: make_chan_def split: if_splits)

lemma made_upto_step:
  assumes "a \<le> i" "made_upto n a i sd" "make_chan i sd = Inr sd'"
  shows "made_upto n a (i + 1) sd'"
proof -
  from make_chan_Inr [OF assms(3)]
  have ok: "index_ok sd (i - 1)" and sd': "sd' = sd[nat (i - 1) := OpenChan]" by simp_all
  from assms(2) have len: "length sd = n"
    and at: "\<And>k. k < n \<Longrightarrow> sd ! k = (if a \<le> int k + 1 \<and> int k + 1 < i then OpenChan else NilChan)"
    by (simp_all add: made_upto_def)
  have "sd' ! k = (if a \<le> int k + 1 \<and> int k + 1 < i + 1 then OpenChan else NilChan)"
    if k: "k < n" for k
  proof (cases "int k + 1 = i")
    case True
    then have "nat (i - 1) = k" by auto
    with k len sd' have "sd' ! k = OpenChan" by simp
    with True assms(1) show ?thesis by simp
  next
    case False
    then have "nat (i - 1) \<noteq> k" using ok by (auto simp: index_ok_def)
    then have "sd' ! k = sd ! k" using sd' by simp
    with at [OF k] False show ?thesis by auto
  qed
  with len sd' show ?thesis by (simp add: made_upto_def)
qed

lemma init_senderDone_Inr:
  assumes "init_senderDone fl = Inr sd"
  shows "length sd = nat (maxTTL fl)"
    and "k < nat (maxTTL fl) \<Longrightarrow> sd ! k = chan_at fl (maxTTL fl) k"
proof -
  from assms have nn: "0 \<le> maxTTL fl"
    and loop: "for_each [minTTL fl..maxTTL fl] make_chan (replicate (nat (maxTTL fl)) NilChan) = Inr sd"
    by (auto simp: init_senderDone_def split: if_splits)
  have "made_upto (nat (maxTTL fl)) (minTTL fl) (max (minTTL fl) (maxTTL fl + 1)) sd"
  proof (rule for_each_upto_Inr [OF loop, where P = "made_upto (nat (maxTTL fl)) (minTTL fl)"])
    show "made_upto (nat (maxTTL fl)) (minTTL fl) (minTTL fl) (replicate (nat (maxTTL fl)) NilChan)"
      by (auto simp: made_upto_def)
  next
    fix i sd sd'
    assume "minTTL fl \<le> i" "made_upto (nat (maxTTL fl)) (minTTL fl) i sd" "make_chan i sd = Inr sd'"
    then show "made_upto (nat (maxTTL fl)) (minTTL fl) (i + 1) sd'" by (rule made_upto_step)
  qed
  then have len: "length sd = nat (maxTTL fl)"
    and at: "\<And>k. k < nat (maxTTL fl) \<Longrightarrow>
      sd ! k = (if minTTL fl \<le> int k + 1 \<and> int k + 1 < max (minTTL fl) (maxTTL fl + 1)
                then OpenChan else NilChan)"
    by (simp_all add: made_upto_def)
  show "length sd = nat (maxTTL fl)" by (rule len)
  show "sd ! k = chan_at fl (maxTTL fl) k" if "k < nat (maxTTL fl)"
    using at [OF that] that by (auto simp: chan_at_def)
qed

lemma init_senderDone_total:
  assumes "1 \<le> minTTL fl" "0 \<le> maxTTL fl"
  shows "\<exists>sd. init_senderDone fl = Inr sd"
proof -
  have "\<exists>sd. for_each [minTTL fl..maxTTL fl] make_chan (replicate (nat (maxTTL fl)) NilChan) = Inr sd
      \<and> length sd = nat (maxTTL fl)"
  proof (rule for_each_upto_total [where P = "\<lambda>i sd. length sd = nat (maxTTL fl)"])
    show "length (replicate (nat (maxTTL fl)) NilChan) = nat (maxTTL fl)" by simp
  next
    fix i and sd :: "chan list"
    assume "minTTL fl \<le> i" "i \<le> maxTTL fl" "length sd = nat (maxTTL fl)"
    then show "\<exists>sd'. make_chan i sd = Inr sd' \<and> length sd' = nat (maxTTL fl)"
      using assms by (simp add: make_chan_def index_ok_def)
  qed
  with assms show ?thesis by (auto simp: init_senderDone_def)
qed

lemma init_senderDone_error: "init_senderDone fl \<noteq> Inl CloseOfClosedChannel"
proof (cases "maxTTL fl < 0")
  case True
  then show ?thesis by (simp add: init_senderDone_def)
next
  case False
  have "for_each [minTTL fl..maxTTL fl] make_chan (replicate (nat (maxTTL fl)) NilChan)
      \<noteq> Inl CloseOfClosedChannel"
    by (rule for_each_upto_never [where P = "\<lambda>i sd. True"])
      (auto simp: make_chan_def split: if_splits)
  with False show ?thesis by (simp add: init_senderDone_def)
qed

lemma rows_upto_start: "rows_upto fl (baseSrcPort fl) newReport"
  by (auto simp: rows_upto_def newReport_def row_def)

lemma rows_upto_step:
  assumes "baseSrcPort fl \<le> i" "rows_upto fl i c" "make_rows fl i c = Inr c'"
  shows "rows_upto fl (i + 1) c'"
proof -
  from assms(3) have c': "c' = \<lparr>Paths = (Paths c)(i \<mapsto> replicate (nat (maxTTL fl)) ''?''),
                Sent = (Sent c)(i \<mapsto> replicate (nat (maxTTL fl)) 0),
                Rcvd = (Rcvd c)(i \<mapsto> replicate (nat (maxTTL fl)) 0)\<rparr>"
    by (auto simp: make_rows_def split: if_splits)
  show ?thesis
    unfolding rows_upto_def
  proof (intro allI)
    fix p
    from assms(2) have
      "row (Sent c) p = (if baseSrcPort fl \<le> p \<and> p < i then replicate (nat (maxTTL fl)) 0 else [])"
      "row (Rcvd c) p = (if baseSrcPort fl \<le> p \<and> p < i then replicate (nat (maxTTL fl)) 0 else [])"
      "row (Paths c) p = (if baseSrcPort fl \<le> p \<and> p < i then replicate (nat (maxTTL fl)) ''?'' else [])"
      by (simp_all add: rows_upto_def)
    then show "row (Sent c') p = (if baseSrcPort fl \<le> p \<and> p < i + 1 then replicate (nat (maxTTL fl)) 0 else [])
        \<and> row (Rcvd c') p = (if baseSrcPort fl \<le> p \<and> p < i + 1 then replicate (nat (maxTTL fl)) 0 else [])
        \<and> row (Paths c') p = (if baseSrcPort fl \<le> p \<and> p < i + 1 then replicate (nat (maxTTL fl)) ''?'' else [])"
      using assms(1) by (cases "p = i") (simp_all add: c' row_upd)
  qed
qed

lemma init_counters_Inr:
  assumes "init_counters fl = Inr c"
  shows "row (Sent c) p = (if in_sweep fl p then replicate (nat (maxTTL fl)) 0 else [])"
    and "row (Rcvd c) p = (if in_sweep fl p then replicate (nat (maxTTL fl)) 0 else [])"
    and "row (Paths c) p = (if in_sweep fl p then replicate (nat (maxTTL fl)) ''?'' else [])"
proof -
  have "rows_upto fl (max (baseSrcPort fl) (sweepEnd fl - 1 + 1)) c"
    by (rule for_each_upto_Inr [OF assms [unfolded init_counters_def], where P = "rows_upto fl"])
      (simp_all add: rows_upto_start rows_upto_step)
  moreover have "(baseSrcPort fl \<le> p \<and> p < max (baseSrcPort fl) (sweepEnd fl - 1 + 1))
      = in_sweep fl p"
    by (auto simp: in_sweep_def)
  ultimately show "row (Sent c) p = (if in_sweep fl p then replicate (nat (maxTTL fl)) 0 else [])"
    and "row (Rcvd c) p = (if in_sweep fl p then replicate (nat (maxTTL fl)) 0 else [])"
    and "row (Paths c) p = (if in_sweep fl p then replicate (nat (maxTTL fl)) ''?'' else [])"
    by (simp_all add: rows_upto_def)
qed

lemma init_counters_total:
  assumes "0 \<le> maxTTL fl"
  shows "\<exists>c. init_counters fl = Inr c"
proof -
  have "\<exists>c. for_each [baseSrcPort fl..sweepEnd fl - 1] (make_rows fl) newReport = Inr c
      \<and> True"
    by (rule for_each_upto_total [where P = "\<lambda>i c. True"]) (use assms in \<open>simp_all add: make_rows_def\<close>)
  then show ?thesis by (simp add: init_counters_def)
qed

lemma init_counters_error: "init_counters fl \<noteq> Inl CloseOfClosedChannel"
  unfolding init_counters_def
  by (rule for_each_upto_never [where P = "\<lambda>i c. True"])
    (auto simp: make_rows_def split: if_splits)

lemma init_Inr:
  assumes "init fl = Inr s"
  shows "state_ok fl s" and "lastClosed s = maxTTL fl"
    and "row (Sent (counters s)) p = (if in_sweep fl p then replicate (nat (maxTTL fl)) 0 else [])"
    and "row (Rcvd (counters s)) p = (if in_sweep fl p then replicate (nat (maxTTL fl)) 0 else [])"
proof -
  from assms obtain sd c where sd: "init_senderDone fl = Inr sd" and c: "init_counters fl = Inr c"
    and s: "s = \<lparr>counters = c, flappedPorts = {}, names = [], lastClosed = maxTTL fl, senderDone = sd\<rparr>"
    by (auto simp: init_def split: sum.splits)
  show "lastClosed s = maxTTL fl" by (simp add: s)
  show "row (Sent (counters s)) p = (if in_sweep fl p then replicate (nat (maxTTL fl)) 0 else [])"
    by (simp add: s init_counters_Inr(1) [OF c])
  show "row (Rcvd (counters s)) p = (if in_sweep fl p then replicate (nat (maxTTL fl)) 0 else [])"
    by (simp add: s init_counters_Inr(2) [OF c])
  have "chans_ok fl s"
    by (simp add: chans_ok_def s init_senderDone_Inr [OF sd])
  moreover have "shape fl (counters s)"
    by (simp add: shape_def s rowlen_def init_counters_Inr [OF c])
  ultimately show "state_ok fl s" by (simp add: state_ok_def)
qed

lemma init_total: "1 \<le> minTTL fl \<Longrightarrow> 0 \<le> maxTTL fl \<Longrightarrow> \<exists>s. init fl = Inr s"
  using init_senderDone_total [of fl] init_counters_total [of fl]
  by (auto simp: init_def)

lemma init_error: "init fl \<noteq> Inl CloseOfClosedChannel"
  using init_senderDone_error [of fl] init_counters_error [of fl]
  by (auto simp: init_def split: sum.splits)

subsection \<open>One step of the consuming loops\<close>

lemma incr_nth:
  assumes "incr m k i = Inr m'" "j < length (row m p)"
  shows "row m' p ! j = row m p ! j + (if p = k \<and> i = int j then 1 else 0)"
proof -
  from incr_Inr [OF assms(1)] have ok: "index_ok (row m k) i"
    and r: "row m' p = (if p = k then (row m k)[nat i := row m k ! nat i + 1] else row m p)"
    by simp_all
  show ?thesis
  proof (cases "p = k \<and> i = int j")
    case True
    then show ?thesis using r assms(2) by simp
  next
    case False
    then have "p = k \<Longrightarrow> nat i \<noteq> j" using ok by (auto simp: index_ok_def)
    then show ?thesis using r False by auto
  qed
qed

lemma on_probe_Inr:
  assumes "on_probe probe s = Inr s'"
  obtains sent where "incr (Sent (counters s)) (srcPort probe) (ttl probe - 1) = Inr sent"
    and "s' = s\<lparr>counters := (counters s)\<lparr>Sent := sent\<rparr>\<rparr>"
  using assms by (auto simp: on_probe_def split: sum.splits)

lemma on_icmp_Inr:
  assumes "on_icmp resp s = Inr s'"
  obtains rcvd where "incr (Rcvd (counters s)) (srcPort resp) (ttl resp - 1) = Inr rcvd"
    and "index_ok (row (Paths (counters s)) (srcPort resp)) (ttl resp - 1)"
    and "counters s' = (counters s)
           \<lparr>Rcvd := rcvd,
            Paths := (Paths (counters s))
              (srcPort resp \<mapsto> (row (Paths (counters s)) (srcPort resp))[nat (ttl resp - 1) := fromName resp])\<rparr>"
    and "senderDone s' = senderDone s" and "lastClosed s' = lastClosed s"
  using assms by (auto simp: on_icmp_def Let_def split: sum.splits if_splits)

lemma on_tcp_Inr:
  assumes "on_tcp tgt resp s = Inr s'"
  obtains sd rcvd where "for_each [ttl resp..lastClosed s - 1] close_chan (senderDone s) = Inr sd"
    and "incr (Rcvd (counters s)) (srcPort resp) (ttl resp - 1) = Inr rcvd"
    and "index_ok (row (Paths (counters s)) (srcPort resp)) (ttl resp - 1)"
    and "counters s' = (counters s)
           \<lparr>Rcvd := rcvd,
            Paths := (Paths (counters s))
              (srcPort resp \<mapsto> (row (Paths (counters s)) (srcPort resp))[nat (ttl resp - 1) := tgt])\<rparr>"
    and "senderDone s' = sd" and "lastClosed s' = min (ttl resp) (lastClosed s)"
  using assms by (auto simp: on_tcp_def Let_def min_def split: sum.splits if_splits)

lemma step_lastClosed:
  assumes "step fl v s = Inr s'"
  shows "lastClosed s' = (case v of TCP resp \<Rightarrow> min (ttl resp) (lastClosed s) | _ \<Rightarrow> lastClosed s)"
proof (cases v)
  case (ProbeV probe)
  with assms show ?thesis by (auto simp: step_def elim!: on_probe_Inr)
next
  case (ICMP resp)
  with assms show ?thesis by (auto simp: step_def elim!: on_icmp_Inr)
next
  case (TCP resp)
  with assms show ?thesis by (auto simp: step_def elim!: on_tcp_Inr)
qed

lemma step_Sent:
  assumes "step fl v s = Inr s'" "j < length (row (Sent (counters s)) p)"
  shows "row (Sent (counters s')) p ! j =
           row (Sent (counters s)) p ! j + (if is_probe_for p (int j + 1) v then 1 else 0)"
proof (cases v)
  case (ProbeV probe)
  with assms(1) have "on_probe probe s = Inr s'" by (simp add: step_def)
  then obtain sent where i: "incr (Sent (counters s)) (srcPort probe) (ttl probe - 1) = Inr sent"
    and s': "s' = s\<lparr>counters := (counters s)\<lparr>Sent := sent\<rparr>\<rparr>" by (rule on_probe_Inr)
  have "(ttl probe - 1 = int j) = (ttl probe = int j + 1)" by auto
  with incr_nth [OF i assms(2)] show ?thesis
    by (simp add: s' ProbeV is_probe_for_def)
next
  case (ICMP resp)
  with assms(1) have "on_icmp resp s = Inr s'" by (simp add: step_def)
  then have "Sent (counters s') = Sent (counters s)" by (rule on_icmp_Inr) simp
  then show ?thesis by (simp add: ICMP is_probe_for_def)
next
  case (TCP resp)
  with assms(1) have "on_tcp (target fl) resp s = Inr s'" by (simp add: step_def)
  then have "Sent (counters s') = Sent (counters s)" by (rule on_tcp_Inr) simp
  then show ?thesis by (simp add: TCP is_probe_for_def)
qed

lemma step_Rcvd:
  assumes "step fl v s = Inr s'" "j < length (row (Rcvd (counters s)) p)"
  shows "row (Rcvd (counters s')) p ! j =
           row (Rcvd (counters s)) p ! j + (if is_response_for p (int j + 1) v then 1 else 0)"
proof (cases v)
  case (ProbeV probe)
  with assms(1) have "on_probe probe s = Inr s'" by (simp add: step_def)
  then have "Rcvd (counters s') = Rcvd (counters s)" by (rule on_probe_Inr) simp
  then show ?thesis by (simp add: ProbeV is_response_for_def)
next
  case (ICMP resp)
  with assms(1) have "on_icmp resp s = Inr s'" by (simp add: step_def)
  then obtain rcvd where i: "incr (Rcvd (counters s)) (srcPort resp) (ttl resp - 1) = Inr rcvd"
    and "Rcvd (counters s') = rcvd" by (rule on_icmp_Inr) simp
  moreover have "(ttl resp - 1 = int j) = (ttl resp = int j + 1)" by auto
  ultimately show ?thesis using incr_nth [OF i assms(2)]
    by (simp add: ICMP is_response_for_def)
next
  case (TCP resp)
  with assms(1) have "on_tcp (target fl) resp s = Inr s'" by (simp add: step_def)
  then obtain rcvd where i: "incr (Rcvd (counters s)) (srcPort resp) (ttl resp - 1) = Inr rcvd"
    and "Rcvd (counters s') = rcvd" by (rule on_tcp_Inr) simp
  moreover have "(ttl resp - 1 = int j) = (ttl resp = int j + 1)" by auto
  ultimately show ?thesis using incr_nth [OF i assms(2)]
    by (simp add: TCP is_response_for_def)
qed

lemma shape_rows:
  assumes "shape fl c"
    and "\<And>p. length (row (Sent c') p) = length (row (Sent c) p)"
    and "\<And>p. length (row (Rcvd c') p) = length (row (Rcvd c) p)"
    and "\<And>p. length (row (Paths c') p) = length (row (Paths c) p)"
  shows "shape fl c'"
  using assms by (simp add: shape_def)

lemma chans_ok_same:
  "chans_ok fl s \<Longrightarrow> senderDone s' = senderDone s \<Longrightarrow> lastClosed s' = lastClosed s \<Longrightarrow> chans_ok fl s'"
  by (simp add: chans_ok_def)

lemma chans_ok_tcp:
  assumes ok: "chans_ok fl s"
    and loop: "for_each [t..lastClosed s - 1] close_chan (senderDone s) = Inr sd"
    and s': "senderDone s' = sd" "lastClosed s' = min t (lastClosed s)"
  shows "chans_ok fl s'"
proof -
  from ok have len: "length (senderDone s) = nat (maxTTL fl)" and lc: "lastClosed s \<le> maxTTL fl"
    and at: "\<And>i. i < nat (maxTTL fl) \<Longrightarrow> senderDone s ! i = chan_at fl (lastClosed s) i"
    by (simp_all add: chans_ok_def)
  from close_loop_Inr [OF loop]
  have len': "length sd = length (senderDone s)"
    and at': "\<And>k. k < length (senderDone s) \<Longrightarrow>
       sd ! k = (if t \<le> int k \<and> int k < max t (lastClosed s - 1 + 1) then ClosedChan
                 else senderDone s ! k)"
    by (simp_all add: closed_upto_def)
  have "sd ! i = chan_at fl (min t (lastClosed s)) i" if i: "i < nat (maxTTL fl)" for i
  proof -
    have "sd ! i = (if t \<le> int i \<and> int i < max t (lastClosed s) then ClosedChan
                    else chan_at fl (lastClosed s) i)"
      using at' [of i] at [OF i] i len by simp
    then show ?thesis by (auto simp: chan_at_def min_def max_def split: if_splits)
  qed
  with len len' lc s' show ?thesis by (simp add: chans_ok_def min_def)
qed

lemma step_inv:
  assumes "step fl v s = Inr s'" "state_ok fl s"
  shows "state_ok fl s'"
proof (cases v)
  case (ProbeV probe)
  with assms(1) have "on_probe probe s = Inr s'" by (simp add: step_def)
  then obtain sent where i: "incr (Sent (counters s)) (srcPort probe) (ttl probe - 1) = Inr sent"
    and s': "s' = s\<lparr>counters := (counters s)\<lparr>Sent := sent\<rparr>\<rparr>" by (rule on_probe_Inr)
  have "chans_ok fl s'" using assms(2) by (simp add: state_ok_def chans_ok_def s')
  moreover have "shape fl (counters s')"
    using assms(2) incr_length [OF i] by (simp add: state_ok_def shape_def s')
  ultimately show ?thesis by (simp add: state_ok_def)
next
  case (ICMP resp)
  with assms(1) have "on_icmp resp s = Inr s'" by (simp add: step_def)
  then obtain rcvd where i: "incr (Rcvd (counters s)) (srcPort resp) (ttl resp - 1) = Inr rcvd"
    and c': "counters s' = (counters s)
           \<lparr>Rcvd := rcvd,
            Paths := (Paths (counters s))
              (srcPort resp \<mapsto> (row (Paths (counters s)) (srcPort resp))[nat (ttl resp - 1) := fromName resp])\<rparr>"
    and sd: "senderDone s' = senderDone s" and lc: "lastClosed s' = lastClosed s"
    by (rule on_icmp_Inr)
  have "chans_ok fl s'" using assms(2) sd lc by (auto simp: state_ok_def intro: chans_ok_same)
  moreover have "shape fl (counters s')"
    using assms(2) incr_length [OF i] by (simp add: state_ok_def shape_def c' row_upd)
  ultimately show ?thesis by (simp add: state_ok_def)
next
  case (TCP resp)
  with assms(1) have "on_tcp (target fl) resp s = Inr s'" by (simp add: step_def)
  then obtain sd rcvd
    where loop: "for_each [ttl resp..lastClosed s - 1] close_chan (senderDone s) = Inr sd"
    and i: "incr (Rcvd (counters s)) (srcPort resp) (ttl resp - 1) = Inr rcvd"
    and c': "counters s' = (counters s)
           \<lparr>Rcvd := rcvd,
            Paths := (Paths (counters s))
              (srcPort resp \<mapsto> (row (Paths (counters s)) (srcPort resp))[nat (ttl resp - 1) := target fl])\<rparr>"
    and sd: "senderDone s' = sd" and lc: "lastClosed s' = min (ttl resp) (lastClosed s)"
    by (rule on_tcp_Inr)
  have "chans_ok fl s'"
    using assms(2) chans_ok_tcp [OF _ loop sd lc] by (simp add: state_ok_def)
  moreover have "shape fl (counters s')"
    using assms(2) incr_length [OF i] by (simp add: state_ok_def shape_def c' row_upd)
  ultimately show ?thesis by (simp add: state_ok_def)
qed

lemma step_not_twice:
  assumes "state_ok fl s"
  shows "step fl v s \<noteq> Inl CloseOfClosedChannel"
proof (cases v)
  case (ProbeV probe)
  then show ?thesis
    by (auto simp: step_def on_probe_def split: sum.splits dest: incr_error)
next
  case (ICMP resp)
  then show ?thesis
    by (auto simp: step_def on_icmp_def Let_def split: sum.splits if_splits dest: incr_error)
next
  case (TCP resp)
  from assms have len: "length (senderDone s) = nat (maxTTL fl)"
    and at: "\<And>i. i < nat (maxTTL fl) \<Longrightarrow> senderDone s ! i = chan_at fl (lastClosed s) i"
    by (simp_all add: state_ok_def chans_ok_def)
  have "for_each [ttl resp..lastClosed s - 1] close_chan (senderDone s) \<noteq> Inl CloseOfClosedChannel"
  proof (rule close_loop_not_twice)
    fix k assume "k < length (senderDone s)" "ttl resp \<le> int k" "int k \<le> lastClosed s - 1"
    then show "senderDone s ! k \<noteq> ClosedChan"
      using at [of k] len by (simp add: chan_at_def)
  qed
  then show ?thesis
    by (auto simp: TCP step_def on_tcp_def Let_def split: sum.splits if_splits dest: incr_error)
qed

lemma step_total:
  assumes "state_ok fl s" "expected fl v" "1 \<le> minTTL fl"
  shows "\<exists>s'. step fl v s = Inr s'"
proof -
  from assms(1) have len: "length (senderDone s) = nat (maxTTL fl)"
    and lc: "lastClosed s \<le> maxTTL fl"
    and at: "\<And>i. i < nat (maxTTL fl) \<Longrightarrow> senderDone s ! i = chan_at fl (lastClosed s) i"
    and sh: "\<And>p. length (row (Sent (counters s)) p) = rowlen fl p"
      "\<And>p. length (row (Rcvd (counters s)) p) = rowlen fl p"
      "\<And>p. length (row (Paths (counters s)) p) = rowlen fl p"
    by (simp_all add: state_ok_def chans_ok_def shape_def)
  have idx: "index_ok xs (t - 1)"
    if "length xs = rowlen fl p" "in_sweep fl p" "minTTL fl \<le> t" "t \<le> maxTTL fl" for xs :: "'a list" and p t
    using that assms(3) by (simp add: index_ok_def rowlen_def)
  show ?thesis
  proof (cases v)
    case (ProbeV probe)
    with assms(2) have "index_ok (row (Sent (counters s)) (srcPort probe)) (ttl probe - 1)"
      by (intro idx [OF sh(1)]) (simp_all add: expected_def)
    from incr_ok [OF this] show ?thesis
      by (auto simp: ProbeV step_def on_probe_def)
  next
    case (ICMP resp)
    with assms(2) have "index_ok (row (Rcvd (counters s)) (srcPort resp)) (ttl resp - 1)"
      and "index_ok (row (Paths (counters s)) (srcPort resp)) (ttl resp - 1)"
      by (intro idx [OF sh(2)] idx [OF sh(3)]; simp add: expected_def)+
    with incr_ok [of "Rcvd (counters s)" "srcPort resp" "ttl resp - 1"] show ?thesis
      by (auto simp: ICMP step_def on_icmp_def Let_def)
  next
    case (TCP resp)
    with assms(2) have e: "in_sweep fl (srcPort resp)" "minTTL fl \<le> ttl resp" "ttl resp \<le> maxTTL fl"
      by (simp_all add: expected_def)
    have "index_ok (row (Rcvd (counters s)) (srcPort resp)) (ttl resp - 1)"
      and p: "index_ok (row (Paths (counters s)) (srcPort resp)) (ttl resp - 1)"
      using e by (intro idx [OF sh(2)] idx [OF sh(3)]; simp)+
    from incr_ok [OF this(1)] obtain rcvd
      where r: "incr (Rcvd (counters s)) (srcPort resp) (ttl resp - 1) = Inr rcvd" ..
    have "\<exists>sd. for_each [ttl resp..lastClosed s - 1] close_chan (senderDone s) = Inr sd"
    proof (rule close_loop_total)
      show "0 \<le> ttl resp" using e assms(3) by simp
      show "lastClosed s - 1 < int (length (senderDone s))" using len lc e assms(3) by simp
    next
      fix k assume "k < length (senderDone s)" "ttl resp \<le> int k" "int k \<le> lastClosed s - 1"
      then show "senderDone s ! k = OpenChan"
        using at [of k] len e by (simp add: chan_at_def)
    qed
    then obtain sd where "for_each [ttl resp..lastClosed s - 1] close_chan (senderDone s) = Inr sd" ..
    with r p show ?thesis
      by (simp add: TCP step_def on_tcp_def Let_def)
  qed
qed

subsection \<open>Runs\<close>

lemma steps_inv:
  "for_each vals (step fl) s = Inr s' \<Longrightarrow> state_ok fl s \<Longrightarrow> state_ok fl s'"
proof (induction vals arbitrary: s)
  case Nil
  then show ?case by simp
next
  case (Cons v vals)
  from Cons.prems(1) obtain s1 where 1: "step fl v s = Inr s1"
    and 2: "for_each vals (step fl) s1 = Inr s'"
    by (auto split: sum.splits)
  from step_inv [OF 1 Cons.prems(2)] Cons.IH [OF 2] show ?case by blast
qed

lemma steps_not_twice:
  "state_ok fl s \<Longrightarrow> for_each vals (step fl) s \<noteq> Inl CloseOfClosedChannel"
proof (induction vals arbitrary: s)
  case Nil
  then show ?case by simp
next
  case (Cons v vals)
  show ?case
  proof (cases "step fl v s")
    case (Inl e)
    with step_not_twice [OF Cons.prems, of v] show ?thesis by auto
  next
    case (Inr s1)
    with Cons.IH [OF step_inv [OF Inr Cons.prems]] show ?thesis by simp
  qed
qed

lemma steps_total:
  "state_ok fl s \<Longrightarrow> 1 \<le> minTTL fl \<Longrightarrow> \<forall>v\<in>set vals. expected fl v \<Longrightarrow>
     \<exists>s'. for_each vals (step fl) s = Inr s'"
proof (induction vals arbitrary: s)
  case Nil
  then show ?case by simp
next
  case (Cons v vals)
  from step_total [OF Cons.prems(1) _ Cons.prems(2), of v] Cons.prems(3)
  obtain s1 where 1: "step fl v s = Inr s1" by auto
  from Cons.IH [OF step_inv [OF 1 Cons.prems(1)] Cons.prems(2)] Cons.prems(3)
  show ?case using 1 by simp
qed

lemma steps_lastClosed:
  "for_each vals (step fl) s = Inr s' \<Longrightarrow> lastClosed s' = fold min (tcp_ttls vals) (lastClosed s)"
proof (induction vals arbitrary: s)
  case Nil
  then show ?case by simp
next
  case (Cons v vals)
  from Cons.prems obtain s1 where 1: "step fl v s = Inr s1"
    and 2: "for_each vals (step fl) s1 = Inr s'"
    by (auto split: sum.splits)
  from step_lastClosed [OF 1] Cons.IH [OF 2] show ?case
    by (cases v) (simp_all add: min.commute)
qed

lemma fold_min_le: "fold min xs (a::int) \<le> a"
proof (induction xs arbitrary: a)
  case Nil
  show ?case by simp
next
  case (Cons x xs)
  have "fold min xs (min x a) \<le> min x a" by (rule Cons.IH)
  also have "\<dots> \<le> a" by simp
  finally show ?case by simp
qed

lemma fold_min_append: "fold min (xs @ ys) (a::int) \<le> fold min xs a"
  by (simp add: fold_min_le)

lemma tcp_ttls_append: "tcp_ttls (xs @ ys) = tcp_ttls xs @ tcp_ttls ys"
  by (induction xs rule: tcp_ttls.induct) simp_all

lemma tcp_ttls_set: "set (tcp_ttls vals) = {ttl resp |resp. TCP resp \<in> set vals}"
  by (induction vals rule: tcp_ttls.induct) auto

lemma steps_Sent:
  "for_each vals (step fl) s = Inr s' \<Longrightarrow> state_ok fl s \<Longrightarrow> j < rowlen fl p \<Longrightarrow>
     row (Sent (counters s')) p ! j = row (Sent (counters s)) p ! j + probes_for vals p (int j + 1)"
proof (induction vals arbitrary: s)
  case Nil
  then show ?case by (simp add: probes_for_def)
next
  case (Cons v vals)
  from Cons.prems(1) obtain s1 where 1: "step fl v s = Inr s1"
    and 2: "for_each vals (step fl) s1 = Inr s'"
    by (auto split: sum.splits)
  have j: "j < length (row (Sent (counters s)) p)"
    using Cons.prems(2,3) by (simp add: state_ok_def shape_def)
  from step_Sent [OF 1 j] Cons.IH [OF 2 step_inv [OF 1 Cons.prems(2)] Cons.prems(3)]
  show ?case by (simp add: probes_for_def)
qed

lemma steps_Rcvd:
  "for_each vals (step fl) s = Inr s' \<Longrightarrow> state_ok fl s \<Longrightarrow> j < rowlen fl p \<Longrightarrow>
     row (Rcvd (counters s')) p ! j = row (Rcvd (counters s)) p ! j + responses_for vals p (int j + 1)"
proof (induction vals arbitrary: s)
  case Nil
  then show ?case by (simp add: responses_for_def)
next
  case (Cons v vals)
  from Cons.prems(1) obtain s1 where 1: "step fl v s = Inr s1"
    and 2: "for_each vals (step fl) s1 = Inr s'"
    by (auto split: sum.splits)
  have j: "j < length (row (Rcvd (counters s)) p)"
    using Cons.prems(2,3) by (simp add: state_ok_def shape_def)
  from step_Rcvd [OF 1 j] Cons.IH [OF 2 step_inv [OF 1 Cons.prems(2)] Cons.prems(3)]
  show ?case by (simp add: responses_for_def)
qed

lemma run_Inr:
  assumes "run fl vals = Inr s"
  obtains s0 where "init fl = Inr s0" and "for_each vals (step fl) s0 = Inr s"
  using assms by (auto simp: run_def split: sum.splits)

lemma run_inv: "run fl vals = Inr s \<Longrightarrow> state_ok fl s"
  by (erule run_Inr) (auto dest: init_Inr(1) steps_inv)

lemma run_not_twice: "run fl vals \<noteq> Inl CloseOfClosedChannel"
proof (cases "init fl")
  case (Inl e)
  with init_error [of fl] show ?thesis by (auto simp: run_def)
next
  case (Inr s0)
  with steps_not_twice [OF init_Inr(1) [OF Inr]] show ?thesis by (simp add: run_def)
qed

lemma run_total:
  assumes "1 \<le> minTTL fl" "0 \<le> maxTTL fl" "\<forall>v\<in>set vals. expected fl v"
  shows "\<exists>s. run fl vals = Inr s"
proof -
  from init_total [OF assms(1,2)] obtain s0 where 0: "init fl = Inr s0" ..
  from steps_total [OF init_Inr(1) [OF 0] assms(1,3)] 0 show ?thesis by (simp add: run_def)
qed

lemma run_lastClosed: "run fl vals = Inr s \<Longrightarrow> lastClosed s = fold min (tcp_ttls vals) (maxTTL fl)"
  by (erule run_Inr) (simp add: steps_lastClosed init_Inr(2))

lemma run_append:
  "run fl (vals @ rest) = Inr s' \<Longrightarrow>
     \<exists>s. run fl vals = Inr s \<and> for_each rest (step fl) s = Inr s'"
  by (auto simp: run_def for_each_append split: sum.splits)

lemma run_senderDone:
  assumes "run fl vals = Inr s" "i < nat (maxTTL fl)"
  shows "senderDone s ! i = chan_at fl (lastClosed s) i"
  using run_inv [OF assms(1)] assms(2) by (simp add: state_ok_def chans_ok_def)

lemma fold_min_less_iff: "(fold min xs (a::int) \<le> b) = (a \<le> b \<or> (\<exists>x\<in>set xs. x \<le> b))"
  by (induction xs arbitrary: a) (auto simp: min_le_iff_disj)

subsection \<open>The counters\<close>

text \<open>
  With the base port \<open>2^63 - 1\<close> and one port the sweep is empty, as the loop at line
  631 leaves it: no row is made, and the first probe counted panics.
\<close>

lemma map_sum_Inr: "map_sum id f x = Inr y \<Longrightarrow> \<exists>r. x = Inr r \<and> f r = y"
  by (cases x) auto

lemma sweep_wraps:
  "\<not> in_sweep \<lparr>maxTTL = 30, minTTL = 1, maxSrcPorts = 1, baseSrcPort = 2 ^ 63 - 1, target = ''t''\<rparr> p"
  by (simp add: in_sweep_def sweepEnd_def int64_def)

lemma sweep_wraps_run:
  "panic_of (run \<lparr>maxTTL = 3, minTTL = 1, maxSrcPorts = 1, baseSrcPort = 2 ^ 63 - 1, target = ''t''\<rparr>
      [ProbeV \<lparr>srcPort = 2 ^ 63 - 1, ttl = 1\<rparr>]) = Some IndexOutOfRange"
  by code_simp

lemma reslice_Inr: "reslice xs n = Inr ys \<Longrightarrow> ys = take n xs"
  by (auto simp: reslice_def split: if_splits)

lemma truncate_row_cut:
  assumes "truncate_row fl q c1 = Inr c2" "cut_of c c1"
  shows "cut_of c c2"
proof (cases "first_target (row (Paths c1) q) (target fl) (maxTTL fl) 0")
  case None
  with assms show ?thesis by (simp add: truncate_row_def)
next
  case (Some i)
  with assms(1) obtain sent rcvd where s: "reslice (row (Sent c1) q) (i + 1) = Inr sent"
    and r: "reslice (row (Rcvd c1) q) (i + 1) = Inr rcvd"
    and c2: "c2 = c1\<lparr>Sent := (Sent c1)(q \<mapsto> sent), Rcvd := (Rcvd c1)(q \<mapsto> rcvd)\<rparr>"
    by (auto simp: truncate_row_def split: sum.splits)
  show ?thesis
    unfolding cut_of_def
  proof
    fix p
    from assms(2) obtain n where n: "row (Sent c1) p = take n (row (Sent c) p)"
      "row (Rcvd c1) p = take n (row (Rcvd c) p)"
      unfolding cut_of_def by blast
    show "\<exists>n. row (Sent c2) p = take n (row (Sent c) p) \<and> row (Rcvd c2) p = take n (row (Rcvd c) p)"
    proof (cases "p = q")
      case False
      with n show ?thesis by (auto simp: c2 row_upd)
    next
      case True
      have "row (Sent c2) p = take (min (i + 1) n) (row (Sent c) p)"
        using True n(1) reslice_Inr [OF s] by (simp add: c2 row_upd)
      moreover have "row (Rcvd c2) p = take (min (i + 1) n) (row (Rcvd c) p)"
        using True n(2) reslice_Inr [OF r] by (simp add: c2 row_upd)
      ultimately show ?thesis by blast
    qed
  qed
qed

lemma cut_of_refl: "cut_of c c"
  unfolding cut_of_def
proof
  fix p
  have "row (Sent c) p = take (length (row (Sent c) p) + length (row (Rcvd c) p)) (row (Sent c) p)
      \<and> row (Rcvd c) p = take (length (row (Sent c) p) + length (row (Rcvd c) p)) (row (Rcvd c) p)"
    by simp
  then show "\<exists>n. row (Sent c) p = take n (row (Sent c) p) \<and> row (Rcvd c) p = take n (row (Rcvd c) p)" ..
qed

lemma truncate_rows_cut:
  assumes "truncate_rows fl c = Inr c'"
  shows "cut_of c c'"
  by (rule for_each_upto_Inr [OF assms [unfolded truncate_rows_def], where P = "\<lambda>i. cut_of c"])
    (auto intro: cut_of_refl truncate_row_cut)

lemma report_port_cases:
  "report_port rnd sa c flapped q rep = Inr rep' \<Longrightarrow>
     rep' = rep \<or>
     (\<exists>paths. rep' = \<lparr>Paths = paths, Sent = (Sent rep)(q \<mapsto> row (Sent c) q),
                         Rcvd = (Rcvd rep)(q \<mapsto> row (Rcvd c) q)\<rparr>)"
  by (auto simp: report_port_def Let_def row_def split: if_splits option.splits)

lemma report_port_rows:
  assumes "report_port rnd sa c flapped q rep = Inr rep'" "rows_of c rep"
  shows "rows_of c rep'"
proof -
  from report_port_cases [OF assms(1)] show ?thesis
  proof
    assume "rep' = rep"
    with assms(2) show ?thesis by simp
  next
    assume "\<exists>paths. rep' = \<lparr>Paths = paths, Sent = (Sent rep)(q \<mapsto> row (Sent c) q),
                         Rcvd = (Rcvd rep)(q \<mapsto> row (Rcvd c) q)\<rparr>"
    then obtain paths where rep': "rep' = \<lparr>Paths = paths, Sent = (Sent rep)(q \<mapsto> row (Sent c) q),
                         Rcvd = (Rcvd rep)(q \<mapsto> row (Rcvd c) q)\<rparr>" ..
    show ?thesis
      unfolding rows_of_def
    proof
      fix p
      from assms(2) have "(row (Sent rep) p = [] \<and> row (Rcvd rep) p = [])
          \<or> (row (Sent rep) p = row (Sent c) p \<and> row (Rcvd rep) p = row (Rcvd c) p)"
        unfolding rows_of_def ..
      then show "(row (Sent rep') p = [] \<and> row (Rcvd rep') p = [])
          \<or> (row (Sent rep') p = row (Sent c) p \<and> row (Rcvd rep') p = row (Rcvd c) p)"
        by (cases "p = q") (simp_all add: rep' row_upd)
    qed
  qed
qed

lemma lossy_report_rows:
  assumes "lossy_report rnd sa fl c flapped = Inr rep"
  shows "rows_of c rep"
proof (rule for_each_upto_Inr [OF assms [unfolded lossy_report_def], where P = "\<lambda>i. rows_of c"])
  show "rows_of c newReport" by (simp add: rows_of_def newReport_def row_def)
next
  fix i rep1 rep2
  assume "rows_of c rep1" "report_port rnd sa c flapped i rep1 = Inr rep2"
  then show "rows_of c rep2" by (rule report_port_rows [rotated])
qed

lemma run_cells:
  assumes r: "run fl vals = Inr s" and p: "in_sweep fl p" and t: "1 \<le> t" "t \<le> maxTTL fl"
  shows "row (Sent (counters s)) p ! nat (t - 1) = probes_for vals p t"
    and "row (Rcvd (counters s)) p ! nat (t - 1) = responses_for vals p t"
proof -
  from r obtain s0 where i: "init fl = Inr s0" and f: "for_each vals (step fl) s0 = Inr s"
    by (rule run_Inr)
  have j: "nat (t - 1) < rowlen fl p" "int (nat (t - 1)) + 1 = t"
    using p t by (simp_all add: rowlen_def)
  have z: "row (Sent (counters s0)) p ! nat (t - 1) = 0" "row (Rcvd (counters s0)) p ! nat (t - 1) = 0"
    using init_Inr(3,4) [OF i, of p] p j(1) by (simp_all add: rowlen_def)
  show "row (Sent (counters s)) p ! nat (t - 1) = probes_for vals p t"
    using steps_Sent [OF f init_Inr(1) [OF i] j(1)] z j(2) by simp
  show "row (Rcvd (counters s)) p ! nat (t - 1) = responses_for vals p t"
    using steps_Rcvd [OF f init_Inr(1) [OF i] j(1)] z j(2) by simp
qed

lemma counts_nonneg: "0 \<le> probes_for vals p t" "0 \<le> responses_for vals p t"
  by (simp_all add: probes_for_def responses_for_def)

lemma cut_cells:
  assumes ok: "state_ok fl s" and cut: "cut_of (counters s) c"
    and t: "1 \<le> t" "t \<le> int (length (row (Sent c) p))"
  shows "in_sweep fl p" and "t \<le> maxTTL fl"
    and "length (row (Rcvd c) p) = length (row (Sent c) p)"
    and "row (Sent c) p ! nat (t - 1) = row (Sent (counters s)) p ! nat (t - 1)"
    and "row (Rcvd c) p ! nat (t - 1) = row (Rcvd (counters s)) p ! nat (t - 1)"
proof -
  from ok have len: "length (row (Sent (counters s)) p) = rowlen fl p"
    "length (row (Rcvd (counters s)) p) = rowlen fl p"
    by (simp_all add: state_ok_def shape_def)
  from cut obtain n where n: "row (Sent c) p = take n (row (Sent (counters s)) p)"
    "row (Rcvd c) p = take n (row (Rcvd (counters s)) p)"
    unfolding cut_of_def by blast
  from t n(1) len(1) have j: "nat (t - 1) < n" "nat (t - 1) < rowlen fl p" by simp_all
  from j(2) show "in_sweep fl p" by (simp add: rowlen_def split: if_splits)
  from j(2) t(1) show "t \<le> maxTTL fl" by (simp add: rowlen_def split: if_splits)
  show "length (row (Rcvd c) p) = length (row (Sent c) p)" by (simp add: n len)
  show "row (Sent c) p ! nat (t - 1) = row (Sent (counters s)) p ! nat (t - 1)"
    using j(1) by (simp add: n(1))
  show "row (Rcvd c) p ! nat (t - 1) = row (Rcvd (counters s)) p ! nat (t - 1)"
    using j(1) by (simp add: n(2))
qed

lemma final_counters_Inr:
  assumes "final_counters fl vals = Inr c"
  obtains s where "run fl vals = Inr s" and "truncate_rows fl (counters s) = Inr c"
  using assms by (auto simp: final_counters_def split: sum.splits)

lemma final_report_Inr:
  assumes "final_report rnd sa fl vals = Inr rep"
  obtains s c where "run fl vals = Inr s" and "truncate_rows fl (counters s) = Inr c"
    and "lossy_report rnd sa fl c (flappedPorts s) = Inr rep"
  using assms by (auto simp: final_report_def split: sum.splits)

lemma final_counters_cells:
  assumes "final_counters fl vals = Inr c" and t: "1 \<le> t" "t \<le> int (length (row (Sent c) p))"
  shows "in_sweep fl p \<and> t \<le> maxTTL fl
       \<and> length (row (Rcvd c) p) = length (row (Sent c) p)
       \<and> row (Sent c) p ! nat (t - 1) = probes_for vals p t
       \<and> row (Rcvd c) p ! nat (t - 1) = responses_for vals p t"
proof -
  from assms(1) obtain s where r: "run fl vals = Inr s" and tr: "truncate_rows fl (counters s) = Inr c"
    by (rule final_counters_Inr)
  note cc = cut_cells [OF run_inv [OF r] truncate_rows_cut [OF tr] t]
  from cc run_cells [OF r cc(1) t(1) cc(2)] show ?thesis by simp
qed

lemma final_report_cells:
  assumes "final_report rnd sa fl vals = Inr rep" and t: "1 \<le> t" "t \<le> int (length (row (Sent rep) p))"
  shows "in_sweep fl p \<and> t \<le> maxTTL fl
       \<and> length (row (Rcvd rep) p) = length (row (Sent rep) p)
       \<and> row (Sent rep) p ! nat (t - 1) = probes_for vals p t
       \<and> row (Rcvd rep) p ! nat (t - 1) = responses_for vals p t"
proof -
  from assms(1) obtain s c where r: "run fl vals = Inr s"
    and tr: "truncate_rows fl (counters s) = Inr c"
    and lr: "lossy_report rnd sa fl c (flappedPorts s) = Inr rep"
    by (rule final_report_Inr)
  have fc: "final_counters fl vals = Inr c" using r tr by (simp add: final_counters_def)
  from t have "row (Sent rep) p \<noteq> []" by auto
  with lossy_report_rows [OF lr]
  have e: "row (Sent rep) p = row (Sent c) p" "row (Rcvd rep) p = row (Rcvd c) p"
    unfolding rows_of_def by blast+
  from final_counters_cells [OF fc t(1), of p] t(2) show ?thesis by (simp add: e)
qed

text \<open>
  C3. Claim: at every point of the run and in the final report
  \<open>0 \<le> Rcvd[p][t] \<le> Sent[p][t]\<close>. Nothing in the response loop reads \<open>Sent\<close>: a
  response that is read before the probe of its cell has been counted (or that
  answers no counted probe) leaves \<open>Rcvd\<close> above \<open>Sent\<close>.
\<close>

theorem rcvd_exceeds_sent:
  "rcvd_after \<lparr>maxTTL = 3, minTTL = 1, maxSrcPorts = 2, baseSrcPort = 32768, target = ''t''\<rparr>
      [ICMP \<lparr>srcPort = 32768, ttl = 1, fromAddr = [10, 0, 0, 1], fromName = ''r1'', rtt = 7\<rparr>] 32768 1 = Inr 1
   \<and> sent_after \<lparr>maxTTL = 3, minTTL = 1, maxSrcPorts = 2, baseSrcPort = 32768, target = ''t''\<rparr>
      [ICMP \<lparr>srcPort = 32768, ttl = 1, fromAddr = [10, 0, 0, 1], fromName = ''r1'', rtt = 7\<rparr>] 32768 1 = Inr 0"
  by code_simp

text \<open>The same cell is in the final report, whatever the rounding of the hit rates.\<close>

lemma report_rcvd_exceeds_sent:
  "report_cells rnd False
      \<lparr>maxTTL = 3, minTTL = 1, maxSrcPorts = 2, baseSrcPort = 32768, target = ''t''\<rparr>
      [ICMP \<lparr>srcPort = 32768, ttl = 1, fromAddr = [10, 0, 0, 1], fromName = ''r1'', rtt = 7\<rparr>] 32768
     = Inr ([0, 0, 0], [1, 0, 0])"
  by code_simp

text \<open>
  C3, as the loops are written: at every point of a run (every interleaving \<open>vals\<close>
  of the values read so far), for every source port \<open>p\<close> of the sweep and every TTL
  \<open>t\<close> in \<open>[1, maxTTL]\<close>, \<open>Sent[p][t-1]\<close> is the number of probes read for \<open>(p, t)\<close>
  and \<open>Rcvd[p][t-1]\<close> the number of responses read for \<open>(p, t)\<close>, and both are
  non-negative. The same holds of every cell that the rows have after the truncation
  and of every cell of the final report, where the two rows of a port have one
  length and belong to a port of the sweep.
\<close>

theorem counters_count_events:
  "(run fl vals = Inr s \<and> in_sweep fl p \<and> 1 \<le> t \<and> t \<le> maxTTL fl \<longrightarrow>
      row (Sent (counters s)) p ! nat (t - 1) = probes_for vals p t
    \<and> row (Rcvd (counters s)) p ! nat (t - 1) = responses_for vals p t
    \<and> 0 \<le> row (Sent (counters s)) p ! nat (t - 1)
    \<and> 0 \<le> row (Rcvd (counters s)) p ! nat (t - 1))
   \<and> (final_counters fl vals = Inr c \<and> 1 \<le> t \<and> t \<le> int (length (row (Sent c) p)) \<longrightarrow>
      in_sweep fl p \<and> t \<le> maxTTL fl
    \<and> length (row (Rcvd c) p) = length (row (Sent c) p)
    \<and> row (Sent c) p ! nat (t - 1) = probes_for vals p t
    \<and> row (Rcvd c) p ! nat (t - 1) = responses_for vals p t
    \<and> 0 \<le> row (Sent c) p ! nat (t - 1)
    \<and> 0 \<le> row (Rcvd c) p ! nat (t - 1))
   \<and> (final_report rnd showAll' fl vals = Inr rep \<and> 1 \<le> t
        \<and> t \<le> int (length (row (Sent rep) p)) \<longrightarrow>
      in_sweep fl p \<and> t \<le> maxTTL fl
    \<and> length (row (Rcvd rep) p) = length (row (Sent rep) p)
    \<and> row (Sent rep) p ! nat (t - 1) = probes_for vals p t
    \<and> row (Rcvd rep) p ! nat (t - 1) = responses_for vals p t
    \<and> 0 \<le> row (Sent rep) p ! nat (t - 1)
    \<and> 0 \<le> row (Rcvd rep) p ! nat (t - 1))"
proof (intro conjI impI)
  assume a: "run fl vals = Inr s \<and> in_sweep fl p \<and> 1 \<le> t \<and> t \<le> maxTTL fl"
  then have r: "run fl vals = Inr s" and p: "in_sweep fl p" and t: "1 \<le> t" "t \<le> maxTTL fl"
    by simp_all
  note c = run_cells [OF r p t]
  from c show "row (Sent (counters s)) p ! nat (t - 1) = probes_for vals p t" by simp
  from c show "row (Rcvd (counters s)) p ! nat (t - 1) = responses_for vals p t" by simp
  from c show "0 \<le> row (Sent (counters s)) p ! nat (t - 1)" by (simp add: counts_nonneg)
  from c show "0 \<le> row (Rcvd (counters s)) p ! nat (t - 1)" by (simp add: counts_nonneg)
next
  assume a: "final_counters fl vals = Inr c \<and> 1 \<le> t \<and> t \<le> int (length (row (Sent c) p))"
  then have c: "in_sweep fl p \<and> t \<le> maxTTL fl
       \<and> length (row (Rcvd c) p) = length (row (Sent c) p)
       \<and> row (Sent c) p ! nat (t - 1) = probes_for vals p t
       \<and> row (Rcvd c) p ! nat (t - 1) = responses_for vals p t"
    by (intro final_counters_cells) simp_all
  from c show "in_sweep fl p" by simp
  from c show "t \<le> maxTTL fl" by simp
  from c show "length (row (Rcvd c) p) = length (row (Sent c) p)" by simp
  from c show "row (Sent c) p ! nat (t - 1) = probes_for vals p t" by simp
  from c show "row (Rcvd c) p ! nat (t - 1) = responses_for vals p t" by simp
  from c show "0 \<le> row (Sent c) p ! nat (t - 1)" by (simp add: counts_nonneg)
  from c show "0 \<le> row (Rcvd c) p ! nat (t - 1)" by (simp add: counts_nonneg)
next
  assume a: "final_report rnd showAll' fl vals = Inr rep \<and> 1 \<le> t
        \<and> t \<le> int (length (row (Sent rep) p))"
  then have c: "in_sweep fl p \<and> t \<le> maxTTL fl
       \<and> length (row (Rcvd rep) p) = length (row (Sent rep) p)
       \<and> row (Sent rep) p ! nat (t - 1) = probes_for vals p t
       \<and> row (Rcvd rep) p ! nat (t - 1) = responses_for vals p t"
    by (intro final_report_cells [where rnd = rnd and sa = showAll']) simp_all
  from c show "in_sweep fl p" by simp
  from c show "t \<le> maxTTL fl" by simp
  from c show "length (row (Rcvd rep) p) = length (row (Sent rep) p)" by simp
  from c show "row (Sent rep) p ! nat (t - 1) = probes_for vals p t" by simp
  from c show "row (Rcvd rep) p ! nat (t - 1) = responses_for vals p t" by simp
  from c show "0 \<le> row (Sent rep) p ! nat (t - 1)" by (simp add: counts_nonneg)
  from c show "0 \<le> row (Rcvd rep) p ! nat (t - 1)" by (simp add: counts_nonneg)
qed

theorem counters_count_events_witness:
  "\<exists>s c rep.
      run \<lparr>maxTTL = 3, minTTL = 1, maxSrcPorts = 2, baseSrcPort = 32768, target = ''t''\<rparr>
         [ProbeV \<lparr>srcPort = 32768, ttl = 2\<rparr>, ProbeV \<lparr>srcPort = 32768, ttl = 2\<rparr>,
          ICMP \<lparr>srcPort = 32768, ttl = 2, fromAddr = [10, 0, 0, 1], fromName = ''r1'', rtt = 7\<rparr>] = Inr s
    \<and> final_counters \<lparr>maxTTL = 3, minTTL = 1, maxSrcPorts = 2, baseSrcPort = 32768, target = ''t''\<rparr>
         [ProbeV \<lparr>srcPort = 32768, ttl = 2\<rparr>, ProbeV \<lparr>srcPort = 32768, ttl = 2\<rparr>,
          ICMP \<lparr>srcPort = 32768, ttl = 2, fromAddr = [10, 0, 0, 1], fromName = ''r1'', rtt = 7\<rparr>] = Inr c
    \<and> final_report (\<lambda>x. x) True
         \<lparr>maxTTL = 3, minTTL = 1, maxSrcPorts = 2, baseSrcPort = 32768, target = ''t''\<rparr>
         [ProbeV \<lparr>srcPort = 32768, ttl = 2\<rparr>, ProbeV \<lparr>srcPort = 32768, ttl = 2\<rparr>,
          ICMP \<lparr>srcPort = 32768, ttl = 2, fromAddr = [10, 0, 0, 1], fromName = ''r1'', rtt = 7\<rparr>] = Inr rep
    \<and> row (Sent (counters s)) 32768 ! nat (2 - 1) = 2
    \<and> row (Rcvd (counters s)) 32768 ! nat (2 - 1) = 1
    \<and> row (Sent c) 32768 ! nat (2 - 1) = 2
    \<and> row (Rcvd c) 32768 ! nat (2 - 1) = 1
    \<and> row (Sent rep) 32768 ! nat (2 - 1) = 2
    \<and> row (Rcvd rep) 32768 ! nat (2 - 1) = 1"
proof -
  let ?fl = "\<lparr>maxTTL = 3, minTTL = 1, maxSrcPorts = 2, baseSrcPort = 32768, target = ''t''\<rparr>"
  let ?vals = "[ProbeV \<lparr>srcPort = 32768, ttl = 2\<rparr>, ProbeV \<lparr>srcPort = 32768, ttl = 2\<rparr>,
          ICMP \<lparr>srcPort = 32768, ttl = 2, fromAddr = [10, 0, 0, 1], fromName = ''r1'', rtt = 7\<rparr>]"
  have "\<exists>s. run ?fl ?vals = Inr s"
    by (rule run_total) (simp_all add: expected_def in_sweep_def sweepEnd_def int64_def)
  then obtain s where r: "run ?fl ?vals = Inr s" ..
  have "lengths_after ?fl ?vals 32768 = Inr (3, 3, 3)" by code_simp
  from map_sum_Inr [OF this [unfolded lengths_after_def]]
  obtain c where c: "final_counters ?fl ?vals = Inr c" and lc: "length (row (Sent c) 32768) = 3"
    by auto
  have "report_cells (\<lambda>x. x) True ?fl ?vals 32768 = Inr ([0, 2, 0], [0, 1, 0])" by code_simp
  from map_sum_Inr [OF this [unfolded report_cells_def]]
  obtain rep where rep: "final_report (\<lambda>x. x) True ?fl ?vals = Inr rep"
    and lr: "row (Sent rep) 32768 = [0, 2, 0]"
    by auto
  have n: "probes_for ?vals 32768 2 = 2" "responses_for ?vals 32768 2 = 1"
    by (simp_all add: probes_for_def responses_for_def is_probe_for_def is_response_for_def)
  have h1: "run ?fl ?vals = Inr s \<and> in_sweep ?fl 32768 \<and> (1::int) \<le> 2 \<and> 2 \<le> maxTTL ?fl"
    using r by (simp add: in_sweep_def sweepEnd_def int64_def)
  have h2: "final_counters ?fl ?vals = Inr c \<and> (1::int) \<le> 2 \<and> 2 \<le> int (length (row (Sent c) 32768))"
    using c lc by simp
  have h3: "final_report (\<lambda>x. x) True ?fl ?vals = Inr rep \<and> (1::int) \<le> 2
      \<and> 2 \<le> int (length (row (Sent rep) 32768))"
    using rep lr by simp
  note w = counters_count_events [where fl = ?fl and vals = ?vals and s = s and c = c and rep = rep
      and rnd = "\<lambda>x. x" and showAll' = True and p = 32768 and t = 2]
  from w h1 n have "row (Sent (counters s)) 32768 ! nat (2 - 1) = 2"
    "row (Rcvd (counters s)) 32768 ! nat (2 - 1) = 1" by simp_all
  moreover from w h2 n have "row (Sent c) 32768 ! nat (2 - 1) = 2"
    "row (Rcvd c) 32768 ! nat (2 - 1) = 1" by simp_all
  moreover from w h3 n have "row (Sent rep) 32768 ! nat (2 - 1) = 2"
    "row (Rcvd rep) 32768 ! nat (2 - 1) = 1" by simp_all
  ultimately show ?thesis using r c rep by blast
qed

subsection \<open>The watermark and the stop channels\<close>

lemma fold_min_Min: "fold min xs (a::int) = Min (set (a # xs))"
  by (rule Min.set_eq_fold [symmetric])

lemma Min_insert_bound:
  fixes a :: int
  assumes "xs \<noteq> []" "\<forall>x\<in>set xs. x \<le> a"
  shows "Min (set (a # xs)) = Min (set xs)"
proof -
  have "Min (set (a # xs)) = min a (Min (set xs))"
    using assms(1) by (simp add: Min_insert)
  moreover have "Min (set xs) \<le> a"
    using assms by (metis List.finite_set Min_le_iff set_empty2 ex_in_conv)
  ultimately show ?thesis by simp
qed

lemma fold_min_lt_iff: "(fold min xs (a::int) < b) = (a < b \<or> (\<exists>x\<in>set xs. x < b))"
  by (induction xs arbitrary: a) (auto simp: min_less_iff_disj)

text \<open>
  C6. \<open>lastClosed\<close> starts at \<open>maxTTL\<close> and never increases; after the responses
  \<open>vals\<close> it is the least of \<open>maxTTL\<close> and the TTLs of the TCP responses read, which
  is the least TTL read once there is one, since the TCP receiver emits no TTL above
  \<open>maxTTL\<close> (\<open>TCPReceiver_packet_Some\<close>). No run closes a closed channel, which is
  the panic of Go for a second \<^verbatim>\<open>close\<close>; and a TCP response whose TTL is not below
  \<open>lastClosed\<close> leaves the channels and \<open>lastClosed\<close> as they are.
\<close>

theorem lastClosed_watermark:
  "run fl vals \<noteq> Inl CloseOfClosedChannel
   \<and> (run fl [] = Inr s0 \<longrightarrow> lastClosed s0 = maxTTL fl)
   \<and> (run fl vals = Inr s \<longrightarrow>
        lastClosed s = Min (set (maxTTL fl # tcp_ttls vals))
        \<and> (tcp_ttls vals \<noteq> [] \<and> (\<forall>k\<in>set (tcp_ttls vals). k \<le> maxTTL fl)
             \<longrightarrow> lastClosed s = Min (set (tcp_ttls vals)))
        \<and> (run fl (vals @ rest) = Inr s' \<longrightarrow> lastClosed s' \<le> lastClosed s))
   \<and> (on_tcp tgt resp s1 = Inr s2 \<and> lastClosed s1 \<le> ttl resp
        \<longrightarrow> senderDone s2 = senderDone s1 \<and> lastClosed s2 = lastClosed s1)"
proof (intro conjI impI)
  show "run fl vals \<noteq> Inl CloseOfClosedChannel" by (rule run_not_twice)
next
  assume "run fl [] = Inr s0"
  from run_lastClosed [OF this] show "lastClosed s0 = maxTTL fl" by simp
next
  assume r: "run fl vals = Inr s"
  from run_lastClosed [OF r] show m: "lastClosed s = Min (set (maxTTL fl # tcp_ttls vals))"
    by (simp only: fold_min_Min)
  {
    assume "tcp_ttls vals \<noteq> [] \<and> (\<forall>k\<in>set (tcp_ttls vals). k \<le> maxTTL fl)"
    then show "lastClosed s = Min (set (tcp_ttls vals))"
      using m Min_insert_bound [of "tcp_ttls vals" "maxTTL fl"] by simp
  }
  {
    assume r': "run fl (vals @ rest) = Inr s'"
    from run_lastClosed [OF r'] run_lastClosed [OF r]
    show "lastClosed s' \<le> lastClosed s"
      by (simp add: tcp_ttls_append fold_min_le)
  }
next
  assume a: "on_tcp tgt resp s1 = Inr s2 \<and> lastClosed s1 \<le> ttl resp"
  then have e: "[ttl resp..lastClosed s1 - 1] = []" by simp
  from a show "senderDone s2 = senderDone s1"
    by (auto simp: on_tcp_def e Let_def split: sum.splits if_splits)
  from a show "lastClosed s2 = lastClosed s1"
    by (auto simp: on_tcp_def e Let_def split: sum.splits if_splits)
qed

theorem lastClosed_watermark_witness:
  "\<exists>s1 s2 s3.
      run \<lparr>maxTTL = 3, minTTL = 1, maxSrcPorts = 2, baseSrcPort = 32768, target = ''t''\<rparr>
        [TCP \<lparr>srcPort = 32768, ttl = 2, rtt = 0\<rparr>] = Inr s1
    \<and> on_tcp ''t'' \<lparr>srcPort = 32769, ttl = 3, rtt = 0\<rparr> s1 = Inr s2
    \<and> run \<lparr>maxTTL = 3, minTTL = 1, maxSrcPorts = 2, baseSrcPort = 32768, target = ''t''\<rparr>
        ([TCP \<lparr>srcPort = 32768, ttl = 2, rtt = 0\<rparr>]
          @ [TCP \<lparr>srcPort = 32769, ttl = 3, rtt = 0\<rparr>, TCP \<lparr>srcPort = 32769, ttl = 1, rtt = 0\<rparr>]) = Inr s3
    \<and> lastClosed s1 = 2 \<and> senderDone s2 = senderDone s1 \<and> lastClosed s2 = 2
    \<and> lastClosed s3 \<le> lastClosed s1"
proof -
  let ?fl = "\<lparr>maxTTL = 3, minTTL = 1, maxSrcPorts = 2, baseSrcPort = 32768, target = ''t''\<rparr>"
  let ?a = "\<lparr>srcPort = 32768, ttl = 2, rtt = 0\<rparr> :: TCPResponse"
  let ?b = "\<lparr>srcPort = 32769, ttl = 3, rtt = 0\<rparr> :: TCPResponse"
  let ?c = "\<lparr>srcPort = 32769, ttl = 1, rtt = 0\<rparr> :: TCPResponse"
  have "\<exists>s. run ?fl ([TCP ?a] @ [TCP ?b, TCP ?c]) = Inr s"
    by (rule run_total) (simp_all add: expected_def in_sweep_def sweepEnd_def int64_def)
  then obtain s3 where r3: "run ?fl ([TCP ?a] @ [TCP ?b, TCP ?c]) = Inr s3" ..
  from run_append [OF r3] obtain s1 where r1: "run ?fl [TCP ?a] = Inr s1"
    and f: "for_each [TCP ?b, TCP ?c] (step ?fl) s1 = Inr s3" by blast
  from f obtain s2 where t: "on_tcp ''t'' ?b s1 = Inr s2"
    by (auto simp: step_def split: sum.splits)
  note w = lastClosed_watermark [where fl = ?fl and vals = "[TCP ?a]" and s = s1
      and rest = "[TCP ?b, TCP ?c]" and s' = s3 and tgt = "''t''" and resp = ?b and ?s1.0 = s1
      and ?s2.0 = s2]
  from w r1 have lc1: "lastClosed s1 = 2" by simp
  from w r1 r3 have le: "lastClosed s3 \<le> lastClosed s1" by blast
  from w t lc1 have "senderDone s2 = senderDone s1 \<and> lastClosed s2 = lastClosed s1" by simp
  with r1 r3 t lc1 le show ?thesis by auto
qed

text \<open>
  C9. Claim: the stop channel of the sender of TTL \<open>t\<close> is closed when the first TCP
  response with a TTL equal to or lower than \<open>t\<close> is read, or at the end of the
  program. The channel of the sender of TTL \<open>t\<close> is \<^verbatim>\<open>senderDone[t-1]\<close>, and a
  response of TTL \<open>k\<close> closes the indices from \<open>k\<close> on: the senders above \<open>k\<close>. After
  a response of TTL 2 the sender of TTL 2 is not stopped, and nothing closes the
  channels that are open when the response stream ends.
\<close>

theorem sender_of_response_ttl_not_stopped:
  "senderDone_after \<lparr>maxTTL = 3, minTTL = 1, maxSrcPorts = 2, baseSrcPort = 32768, target = ''t''\<rparr>
      [TCP \<lparr>srcPort = 32768, ttl = 2, rtt = 0\<rparr>] = Inr [OpenChan, OpenChan, ClosedChan]"
  by code_simp

text \<open>
  C9, as the loop at line 684 is written: for every TTL \<open>t\<close> in \<open>[minTTL, maxTTL]\<close>,
  after the responses \<open>vals\<close> the stop channel of the sender of \<open>t\<close> is closed if a
  TCP response with a TTL strictly lower than \<open>t\<close> has been read, and open
  otherwise, also when the stream has ended; it is never closed twice.
\<close>

theorem senderDone_closed_iff:
  "run fl vals = Inr s \<Longrightarrow> 1 \<le> minTTL fl \<Longrightarrow> minTTL fl \<le> t \<Longrightarrow> t \<le> maxTTL fl \<Longrightarrow>
     senderDone s ! nat (t - 1) = (if \<exists>k\<in>set (tcp_ttls vals). k < t then ClosedChan else OpenChan)
   \<and> run fl vals \<noteq> Inl CloseOfClosedChannel"
proof -
  assume r: "run fl vals = Inr s" and t: "1 \<le> minTTL fl" "minTTL fl \<le> t" "t \<le> maxTTL fl"
  have i: "nat (t - 1) < nat (maxTTL fl)" "int (nat (t - 1)) = t - 1" using t by simp_all
  have "(lastClosed s \<le> t - 1) = (\<exists>k\<in>set (tcp_ttls vals). k < t)"
    using t by (simp add: run_lastClosed [OF r] fold_min_lt_iff)
  then have "senderDone s ! nat (t - 1) = (if \<exists>k\<in>set (tcp_ttls vals). k < t then ClosedChan else OpenChan)"
    using run_senderDone [OF r i(1)] i(2) t by (simp add: chan_at_def)
  then show ?thesis using r by simp
qed

theorem senderDone_closed_iff_witness:
  "\<exists>s. run \<lparr>maxTTL = 3, minTTL = 1, maxSrcPorts = 2, baseSrcPort = 32768, target = ''t''\<rparr>
        [TCP \<lparr>srcPort = 32768, ttl = 2, rtt = 0\<rparr>] = Inr s
      \<and> senderDone s ! nat (3 - 1) = ClosedChan
      \<and> senderDone s ! nat (2 - 1) = OpenChan"
proof -
  let ?fl = "\<lparr>maxTTL = 3, minTTL = 1, maxSrcPorts = 2, baseSrcPort = 32768, target = ''t''\<rparr>"
  let ?a = "\<lparr>srcPort = 32768, ttl = 2, rtt = 0\<rparr> :: TCPResponse"
  have "\<exists>s. run ?fl [TCP ?a] = Inr s"
    by (rule run_total) (simp_all add: expected_def in_sweep_def sweepEnd_def int64_def)
  then obtain s where r: "run ?fl [TCP ?a] = Inr s" ..
  have "senderDone s ! nat (3 - 1) = ClosedChan"
    using senderDone_closed_iff [OF r, of 3] by simp
  moreover have "senderDone s ! nat (2 - 1) = OpenChan"
    using senderDone_closed_iff [OF r, of 2] by simp
  ultimately show ?thesis using r by blast
qed

subsection \<open>Truncation\<close>

lemma truncate_row_Paths: "truncate_row fl p c = Inr c' \<Longrightarrow> Paths c' = Paths c"
  by (auto simp: truncate_row_def split: option.splits sum.splits)

lemma truncate_rows_Paths:
  assumes "truncate_rows fl c = Inr c'"
  shows "Paths c' = Paths c"
  by (rule for_each_upto_Inr [OF assms [unfolded truncate_rows_def], where P = "\<lambda>i c'. Paths c' = Paths c"])
    (auto dest: truncate_row_Paths)

text \<open>
  C7. Claim: after the response stream closes, the \<open>Paths\<close>, \<open>Sent\<close> and \<open>Rcvd\<close> rows
  of a port whose path contains the target name are all cut at the first index of
  the target, so that the three have one length and the target name is last in the
  path. Line 702 cuts the loop variable, not the row of the map
  (\<open>truncate_rows_Paths\<close>): with the target answering at TTL 1 and TTL 2 and
  \<open>maxTTL = 3\<close>, the rows of \<open>Sent\<close> and \<open>Rcvd\<close> have length 1 and the path row
  keeps its three entries, the target name twice.
\<close>

theorem Paths_row_not_truncated:
  "lengths_after \<lparr>maxTTL = 3, minTTL = 1, maxSrcPorts = 2, baseSrcPort = 32768, target = ''t''\<rparr>
      [TCP \<lparr>srcPort = 32768, ttl = 1, rtt = 0\<rparr>, TCP \<lparr>srcPort = 32768, ttl = 2, rtt = 0\<rparr>] 32768
     = Inr (3, 1, 1)
   \<and> paths_after \<lparr>maxTTL = 3, minTTL = 1, maxSrcPorts = 2, baseSrcPort = 32768, target = ''t''\<rparr>
      [TCP \<lparr>srcPort = 32768, ttl = 1, rtt = 0\<rparr>, TCP \<lparr>srcPort = 32768, ttl = 2, rtt = 0\<rparr>] 32768
     = Inr [''t'', ''t'', ''?'']"
  by code_simp

subsection \<open>Responses outside the counter rows\<close>

text \<open>
  C8. Claim: every response that the receivers emit has its source port in the sweep
  and its TTL in \<open>[1, maxTTL]\<close>, so every counter access of the correlator is in
  range. The ICMP receiver checks neither field and the TCP receiver does not check
  the port (it never reads \<open>probePortStart\<close> and \<open>probePortEnd\<close>): a TTL-exceeded
  message quoting source port 1 and sequence number 0 is emitted with TTL 0, a reset
  from the target to port 80 with source port 80, and the correlator panics on
  either at line 666 or 691.
\<close>

theorem receivers_emit_unchecked_cells:
  "ICMPReceiver_packet ''ip4'' 56 (replicate 20 0 @ [11, 0] @ replicate 34 0)
      \<lparr>Source = 1, Destination = 22, SeqNum = 0, AckNum = 0, Flags = 2\<rparr> [10, 0, 0, 254] 1000
     = Some \<lparr>srcPort = 1, ttl = 0, fromAddr = [10, 0, 0, 254], fromName = [], rtt = 1000\<rparr>
   \<and> panic_of (run \<lparr>maxTTL = 3, minTTL = 1, maxSrcPorts = 2, baseSrcPort = 32768, target = ''t''\<rparr>
      [ICMP \<lparr>srcPort = 1, ttl = 0, fromAddr = [10, 0, 0, 254], fromName = ''?'', rtt = 1000\<rparr>])
     = Some IndexOutOfRange
   \<and> TCPReceiver_packet 4 16 ''ip4'' ''10.0.0.1'' 32768 32770 22 3 40
      \<lparr>Source = 22, Destination = 80, SeqNum = 0, AckNum = Sender_seqNum 2 100 + 1, Flags = 0x14\<rparr>
      ''10.0.0.1'' 104
     = Some \<lparr>srcPort = 80, ttl = 2, rtt = 4\<rparr>
   \<and> panic_of (run \<lparr>maxTTL = 3, minTTL = 1, maxSrcPorts = 2, baseSrcPort = 32768, target = ''t''\<rparr>
      [TCP \<lparr>srcPort = 80, ttl = 2, rtt = 4\<rparr>])
     = Some IndexOutOfRange"
  by code_simp

theorem receivers_emit_unchecked_cells_witness:
  "map_option srcPort
     (ICMPReceiver_packet ''ip4'' 56 (replicate 20 0 @ [11, 0] @ replicate 34 0)
        \<lparr>Source = 1, Destination = 22, SeqNum = 0, AckNum = 0, Flags = 2\<rparr> [10, 0, 0, 254] 1000)
     = Some 1
   \<and> map_option ttl
     (ICMPReceiver_packet ''ip4'' 56 (replicate 20 0 @ [11, 0] @ replicate 34 0)
        \<lparr>Source = 1, Destination = 22, SeqNum = 0, AckNum = 0, Flags = 2\<rparr> [10, 0, 0, 254] 1000)
     = Some 0
   \<and> map_option srcPort
     (TCPReceiver_packet 4 16 ''ip4'' ''10.0.0.1'' 32768 32770 22 3 40
        \<lparr>Source = 22, Destination = 80, SeqNum = 0, AckNum = Sender_seqNum 2 100 + 1, Flags = 0x14\<rparr>
        ''10.0.0.1'' 104)
     = Some 80"
  using receivers_emit_unchecked_cells by simp

end
